theory Spec2Isabelle
  imports Main "HOL-Library.Multiset" "HOL-Library.Monad_Syntax" "HOL-Library.Word"
begin

unbundle bit_operations_syntax

section \<open>Memory, comparator and segment descriptor\<close>

text \<open>
  A pointer into an array of 64-bit elements is modelled as the list of the cells
  from the pointer onwards; \<open>p[i]\<close> reads cell \<open>i\<close> of that list. The element
  type is left polymorphic: the code never looks inside an element. Every read and write
  is checked against the end of the list; an access outside is the value \<open>None\<close>.
  Indices are \<open>size_t\<close> in the source and natural numbers here; the places where
  the source would wrap below zero are made explicit (they yield \<open>None\<close>, since
  the access that follows is out of range).
\<close>

definition rd :: "'a list \<Rightarrow> nat \<Rightarrow> 'a option" where
  "rd xs i = (if i < length xs then Some (xs ! i) else None)"

definition wr :: "'a list \<Rightarrow> nat \<Rightarrow> 'a \<Rightarrow> 'a list option" where
  "wr xs i v = (if i < length xs then Some (xs[i := v]) else None)"

text \<open>\<open>n - 1\<close> on \<open>size_t\<close>, used as an index: wraps for \<open>n = 0\<close>.\<close>

definition idx_pred :: "nat \<Rightarrow> nat option" where
  "idx_pred n = (if n = 0 then None else Some (n - 1))"

text \<open>
  \<open>cmp_ctx_fn_t\<close>: the comparator receives two elements and the context pointer
  \<open>arg\<close>. What \<open>arg\<close> points to may change at every call (a counter, a random
  generator), so the comparator maps the context to the result and the new context.
\<close>

type_synonym ('a, 'c) cmp_ctx_fn_t = "'a \<Rightarrow> 'a \<Rightarrow> 'c \<Rightarrow> int \<times> 'c"

text \<open>\<open>cmp(&p[i], &p[j], arg)\<close>\<close>

definition cmp_at :: "('a, 'c) cmp_ctx_fn_t \<Rightarrow> 'a list \<Rightarrow> nat \<Rightarrow> nat \<Rightarrow> 'c \<Rightarrow> (int \<times> 'c) option" where
  "cmp_at cmp p i j arg = do {
     a \<leftarrow> rd p i;
     b \<leftarrow> rd p j;
     Some (cmp a b arg)
   }"

record segment_t =
  lh :: nat
  q1 :: nat
  q2 :: nat
  rh :: nat
  q3 :: nat
  q4 :: nat

definition partition_array :: "nat \<Rightarrow> segment_t" where
  "partition_array elements =
     (let left = elements div 2;
          right = elements - left
      in \<lparr> lh = left, q1 = left div 2, q2 = left - (left div 2),
           rh = right, q3 = right div 2, q4 = right - (right div 2) \<rparr>)"

section \<open>Rotation\<close>

text \<open>
  \<open>rotate(array, swap, left, right)\<close>: three block copies. Each copy is in range
  when the block fits into both lists.
\<close>

definition block_copy :: "'a list \<Rightarrow> nat \<Rightarrow> 'a list \<Rightarrow> nat \<Rightarrow> nat \<Rightarrow> 'a list option" where
  "block_copy dst d src s n =
     (if d + n \<le> length dst \<and> s + n \<le> length src
      then Some (take d dst @ take n (drop s src) @ drop (d + n) dst)
      else None)"

definition rotate :: "'a list \<Rightarrow> 'a list \<Rightarrow> nat \<Rightarrow> nat \<Rightarrow> ('a list \<times> 'a list) option" where
  "rotate array swap left right = do {
     swap1 \<leftarrow> block_copy swap 0 array 0 left;
     array1 \<leftarrow> block_copy array 0 array left right;
     array2 \<leftarrow> block_copy array1 right swap1 0 left;
     Some (array2, swap1)
   }"

section \<open>Compare-exchange and the base-case sorter\<close>

text \<open>
  \<open>xchg_ctx(seg, cmp, arg)\<close> with \<open>seg = &p[i]\<close>: the result \<open>_res\<close> is 0 or 1
  and indexes the pair.
\<close>

definition xchg_ctx :: "('a, 'c) cmp_ctx_fn_t \<Rightarrow> 'a list \<Rightarrow> nat \<Rightarrow> 'c \<Rightarrow> (bool \<times> 'a list \<times> 'c) option" where
  "xchg_ctx cmp p i arg = do {
     (r, arg1) \<leftarrow> cmp_at cmp p i (i + 1) arg;
     let res = (r > 0);
     swap \<leftarrow> rd p (i + of_bool (\<not> res));
     v \<leftarrow> rd p (i + of_bool res);
     p1 \<leftarrow> wr p i v;
     p2 \<leftarrow> wr p1 (i + 1) swap;
     Some (res, p2, arg1)
   }"

text \<open>
  The inner \<open>do ... while (pair >= seg)\<close> loop of the default case. \<open>pair\<close> is the
  index of the pair relative to \<open>seg\<close>; \<open>pair = &pair[-2]\<close> leaves the run exactly
  when the index is below 2.
\<close>

function oddeven_sweep :: "('a, 'c) cmp_ctx_fn_t \<Rightarrow> 'a list \<Rightarrow> nat \<Rightarrow> 8 word \<Rightarrow> 'c \<Rightarrow> ('a list \<times> 8 word \<times> 'c) option" where
  "oddeven_sweep cmp seg pair itr arg = do {
     (res, seg1, arg1) \<leftarrow> xchg_ctx cmp seg pair arg;
     let itr1 = itr OR of_bool res;
     if 2 \<le> pair then oddeven_sweep cmp seg1 (pair - 2) itr1 arg1
     else Some (seg1, itr1, arg1)
   }"
  by pat_completeness auto
termination
  by (relation "measure (\<lambda>(cmp, seg, pair, itr, arg). pair)") auto

declare oddeven_sweep.simps [simp del]

text \<open>
  The outer \<open>do ... while (itr-- && --elements)\<close> loop: \<open>itr--\<close> tests the old
  value of the \<open>uint8_t\<close>, and \<open>--elements\<close> is evaluated only when that was
  non-zero.
\<close>

function oddeven_loop :: "('a, 'c) cmp_ctx_fn_t \<Rightarrow> 'a list \<Rightarrow> nat \<Rightarrow> bool \<Rightarrow> 8 word \<Rightarrow> nat \<Rightarrow> 'c \<Rightarrow> ('a list \<times> 'c) option" where
  "oddeven_loop cmp seg elem z itr elements arg = do {
     let z1 = (\<not> z);
     (seg1, itr1, arg1) \<leftarrow> oddeven_sweep cmp seg (elem + of_bool z1) itr arg;
     if itr1 \<noteq> 0 \<and> elements - 1 \<noteq> 0
     then oddeven_loop cmp seg1 elem z1 (itr1 - 1) (elements - 1) arg1
     else Some (seg1, arg1)
   }"
  by pat_completeness auto
termination
  by (relation "measure (\<lambda>(cmp, seg, elem, z, itr, elements, arg). elements)") auto

declare oddeven_loop.simps [simp del]

definition oddeven_sort_ctx :: "('a, 'c) cmp_ctx_fn_t \<Rightarrow> 'a list \<Rightarrow> nat \<Rightarrow> 'c \<Rightarrow> ('a list \<times> 'c) option" where
  "oddeven_sort_ctx cmp seg elements arg =
     (if elements = 0 \<or> elements = 1 then Some (seg, arg)
      else if elements = 2 then do {
        (_, seg1, arg1) \<leftarrow> xchg_ctx cmp seg 0 arg;
        Some (seg1, arg1)
      }
      else if elements = 3 then do {
        (_, seg1, arg1) \<leftarrow> xchg_ctx cmp seg 0 arg;
        (res, seg2, arg2) \<leftarrow> xchg_ctx cmp seg1 1 arg1;
        if \<not> res then Some (seg2, arg2)
        else do {
          (_, seg3, arg3) \<leftarrow> xchg_ctx cmp seg2 0 arg2;
          Some (seg3, arg3)
        }
      }
      else oddeven_loop cmp seg (elements - 3) True 1 elements arg)"

section \<open>Parity merge\<close>

text \<open>
  One forward step \<open>dst[i_ptd] = cmp(&src[i_ptl], &src[i_ptr], arg) <= 0 ? src[i_ptl] : src[i_ptr]\<close>
  and one backward step \<open>dst[i_tpd] = cmp(&src[i_tpl], &src[i_tpr], arg) > 0 ? src[i_tpl] : src[i_tpr]\<close>.
  Each returns whether the left cursor was taken; the caller moves the cursors.
\<close>

definition merge_head :: "('a, 'c) cmp_ctx_fn_t \<Rightarrow> 'a list \<Rightarrow> 'a list \<Rightarrow> nat \<Rightarrow> nat \<Rightarrow> nat \<Rightarrow> 'c \<Rightarrow> (bool \<times> 'a list \<times> 'c) option" where
  "merge_head cmp src dst i_ptd i_ptl i_ptr arg = do {
     (r, arg1) \<leftarrow> cmp_at cmp src i_ptl i_ptr arg;
     v \<leftarrow> rd src (if r \<le> 0 then i_ptl else i_ptr);
     dst1 \<leftarrow> wr dst i_ptd v;
     Some (r \<le> 0, dst1, arg1)
   }"

definition merge_tail :: "('a, 'c) cmp_ctx_fn_t \<Rightarrow> 'a list \<Rightarrow> 'a list \<Rightarrow> nat \<Rightarrow> nat \<Rightarrow> nat \<Rightarrow> 'c \<Rightarrow> (bool \<times> 'a list \<times> 'c) option" where
  "merge_tail cmp src dst i_tpd i_tpl i_tpr arg = do {
     (r, arg1) \<leftarrow> cmp_at cmp src i_tpl i_tpr arg;
     v \<leftarrow> rd src (if r > 0 then i_tpl else i_tpr);
     dst1 \<leftarrow> wr dst i_tpd v;
     Some (r > 0, dst1, arg1)
   }"

text \<open>
  The \<open>while (--left)\<close> loop. Entered with \<open>left = 0\<close> the counter wraps to
  \<open>SIZE_MAX\<close> and the first backward comparison reads \<open>src[SIZE_MAX]\<close>: out of
  range. The cursors that are decremented never pass below zero for \<open>left \<ge> 1\<close>
  (each starts at \<open>left - 1\<close> or above and is decremented at most \<open>left - 1\<close> times).
\<close>

function parity_loop :: "('a, 'c) cmp_ctx_fn_t \<Rightarrow> 'a list \<Rightarrow> 'a list \<Rightarrow> nat \<Rightarrow> nat \<Rightarrow> nat \<Rightarrow> nat \<Rightarrow> nat \<Rightarrow> nat \<Rightarrow> nat \<Rightarrow> 'c
    \<Rightarrow> ('a list \<times> nat \<times> nat \<times> nat \<times> nat \<times> nat \<times> nat \<times> 'c) option" where
  "parity_loop cmp src dst left i_ptd i_tpd i_ptl i_ptr i_tpl i_tpr arg =
     (if left = 0 then None
      else if left - 1 \<noteq> 0 then do {
        (hl, dst1, arg1) \<leftarrow> merge_head cmp src dst i_ptd i_ptl i_ptr arg;
        (tl, dst2, arg2) \<leftarrow> merge_tail cmp src dst1 i_tpd i_tpl i_tpr arg1;
        parity_loop cmp src dst2 (left - 1) (i_ptd + 1) (i_tpd - 1)
          (if hl then i_ptl + 1 else i_ptl) (if hl then i_ptr else i_ptr + 1)
          (if tl then i_tpl - 1 else i_tpl) (if tl then i_tpr else i_tpr - 1) arg2
      }
      else Some (dst, i_ptd, i_tpd, i_ptl, i_ptr, i_tpl, i_tpr, arg))"
  by pat_completeness auto
termination
  by (relation "measure (\<lambda>(cmp, src, dst, left, rest). left)") auto

declare parity_loop.simps [simp del]

definition parity_merge_ctx :: "('a, 'c) cmp_ctx_fn_t \<Rightarrow> 'a list \<Rightarrow> 'a list \<Rightarrow> nat \<Rightarrow> nat \<Rightarrow> 'c \<Rightarrow> ('a list \<times> 'c) option" where
  "parity_merge_ctx cmp src dst left right arg = do {
     i_tpd \<leftarrow> idx_pred (left + right);
     (dst0, i_ptd0, i_ptl0, i_ptr0, arg0) \<leftarrow>
       (if left < right then do {
          (hl, dst1, arg1) \<leftarrow> merge_head cmp src dst 0 0 left arg;
          Some (dst1, 1, if hl then 1 else 0, if hl then left else left + 1, arg1)
        }
        else Some (dst, 0, 0, left, arg));
     i_tpl \<leftarrow> idx_pred left;
     i_tpr \<leftarrow> idx_pred (left + right);
     (dst2, i_ptd2, i_tpd2, i_ptl2, i_ptr2, i_tpl2, i_tpr2, arg2) \<leftarrow>
       parity_loop cmp src dst0 left i_ptd0 i_tpd i_ptl0 i_ptr0 i_tpl i_tpr arg0;
     (_, dst3, arg3) \<leftarrow> merge_tail cmp src dst2 i_tpd2 i_tpl2 i_tpr2 arg2;
     (_, dst4, arg4) \<leftarrow> merge_head cmp src dst3 i_ptd2 i_ptl2 i_ptr2 arg3;
     Some (dst4, arg4)
   }"

section \<open>The work-stack engine\<close>

datatype ret_addr_t = ret_addr_0 | ret_addr_1 | ret_addr_2 | ret_addr_3 | ret_addr_4

text \<open>A frame's \<open>data\<close> pointer is kept as its offset into the caller's buffer.\<close>

record stack_frame_t =
  data :: nat
  elements :: nat
  segment :: segment_t
  ret_addr :: ret_addr_t

text \<open>
  The state of \<open>xsort\<close>'s loop: the caller's buffer \<open>ptr\<close>, the auxiliary buffer
  \<open>swap\<close>, the frame stack (top first; \<open>stack_depth\<close> is its length minus one),
  its capacity, and what \<open>arg\<close> points to.
\<close>

record ('a, 'c) xsort_state =
  ptr :: "'a list"
  swap :: "'a list"
  stk :: "stack_frame_t list"
  frame_capacity :: nat
  ctx :: 'c

text \<open>\<open>stk[++stack_depth] = f\<close>: the slot written is the one after the current top.\<close>

definition push :: "nat \<Rightarrow> stack_frame_t list \<Rightarrow> stack_frame_t \<Rightarrow> stack_frame_t list option" where
  "push cap s f = (if length s < cap then Some (f # s) else None)"

text \<open>The two checks at \<open>ret_addr_4\<close>, with the comparisons in the source's order.\<close>

definition already_ordered :: "('a, 'c) cmp_ctx_fn_t \<Rightarrow> 'a list \<Rightarrow> segment_t \<Rightarrow> 'c \<Rightarrow> (bool \<times> 'c) option" where
  "already_ordered cmp d sg arg = do {
     i1 \<leftarrow> idx_pred (q1 sg);
     (r1, arg1) \<leftarrow> cmp_at cmp d i1 (q1 sg) arg;
     if r1 \<le> 0 then do {
       i2 \<leftarrow> idx_pred (lh sg);
       (r2, arg2) \<leftarrow> cmp_at cmp d i2 (lh sg) arg1;
       if r2 \<le> 0 then do {
         i3 \<leftarrow> idx_pred (lh sg + q3 sg);
         (r3, arg3) \<leftarrow> cmp_at cmp d i3 (lh sg + q3 sg) arg2;
         Some (r3 \<le> 0, arg3)
       }
       else Some (False, arg2)
     }
     else Some (False, arg1)
   }"

definition fully_reversed :: "('a, 'c) cmp_ctx_fn_t \<Rightarrow> 'a list \<Rightarrow> nat \<Rightarrow> segment_t \<Rightarrow> 'c \<Rightarrow> (bool \<times> 'c) option" where
  "fully_reversed cmp d n sg arg = do {
     i1 \<leftarrow> idx_pred (lh sg);
     (r1, arg1) \<leftarrow> cmp_at cmp d 0 i1 arg;
     if r1 > 0 then do {
       i2 \<leftarrow> idx_pred (lh sg + q3 sg);
       (r2, arg2) \<leftarrow> cmp_at cmp d (q1 sg) i2 arg1;
       if r2 > 0 then do {
         i3 \<leftarrow> idx_pred n;
         (r3, arg3) \<leftarrow> cmp_at cmp d (lh sg) i3 arg2;
         Some (r3 > 0, arg3)
       }
       else Some (False, arg2)
     }
     else Some (False, arg1)
   }"

definition rotate_quarters :: "'a list \<Rightarrow> 'a list \<Rightarrow> segment_t \<Rightarrow> ('a list \<times> 'a list) option" where
  "rotate_quarters d sw sg = do {
     (d1, sw1) \<leftarrow> rotate d sw (q1 sg) (q2 sg + rh sg);
     (d2, sw2) \<leftarrow> rotate d1 sw1 (q2 sg) (rh sg);
     rotate d2 sw2 (q3 sg) (q4 sg)
   }"

text \<open>The three merges; \<open>&data[lh]\<close> and \<open>&swap[lh]\<close> are the lists from cell \<open>lh\<close> on.\<close>

definition merge_quarters :: "('a, 'c) cmp_ctx_fn_t \<Rightarrow> 'a list \<Rightarrow> 'a list \<Rightarrow> segment_t \<Rightarrow> 'c \<Rightarrow> ('a list \<times> 'a list \<times> 'c) option" where
  "merge_quarters cmp d sw sg arg = do {
     (sw1, arg1) \<leftarrow> parity_merge_ctx cmp d sw (q1 sg) (q2 sg) arg;
     (t, arg2) \<leftarrow> parity_merge_ctx cmp (drop (lh sg) d) (drop (lh sg) sw1) (q3 sg) (q4 sg) arg1;
     let sw2 = take (lh sg) sw1 @ t;
     (d1, arg3) \<leftarrow> parity_merge_ctx cmp sw2 d (lh sg) (rh sg) arg2;
     Some (d1, sw2, arg3)
   }"

text \<open>The code at \<open>ret_addr_4\<close>, on the frame's run \<open>d\<close> of \<open>n\<close> elements.\<close>

definition merge_decision :: "('a, 'c) cmp_ctx_fn_t \<Rightarrow> 'a list \<Rightarrow> 'a list \<Rightarrow> nat \<Rightarrow> segment_t \<Rightarrow> 'c \<Rightarrow> ('a list \<times> 'a list \<times> 'c) option" where
  "merge_decision cmp d sw n sg arg = do {
     (ord, arg1) \<leftarrow> already_ordered cmp d sg arg;
     if ord then Some (d, sw, arg1)
     else do {
       (rev, arg2) \<leftarrow> fully_reversed cmp d n sg arg1;
       if rev then do {
         (d1, sw1) \<leftarrow> rotate_quarters d sw sg;
         Some (d1, sw1, arg2)
       }
       else merge_quarters cmp d sw sg arg2
     }
   }"

text \<open>
  One iteration of \<open>while (stack_depth >= 0)\<close>: the capacity check, the pop and the
  code at the popped frame's label.
\<close>

definition xsort_step :: "('a, 'c) cmp_ctx_fn_t \<Rightarrow> ('a, 'c) xsort_state \<Rightarrow> ('a, 'c) xsort_state option" where
  "xsort_step cmp st =
     (case stk st of
        [] \<Rightarrow> None
      | fr # rest \<Rightarrow>
          let cap = (if frame_capacity st \<le> length (stk st) + 1
                     then 2 * frame_capacity st else frame_capacity st);
              off = data fr;
              n = elements fr;
              sg = segment fr
          in (case ret_addr fr of
               ret_addr_0 \<Rightarrow>
                 if n \<le> 7 then do {
                   (v, arg1) \<leftarrow> oddeven_sort_ctx cmp (drop off (ptr st)) n (ctx st);
                   Some (st\<lparr>ptr := take off (ptr st) @ v, stk := rest,
                             frame_capacity := cap, ctx := arg1\<rparr>)
                 }
                 else do {
                   let sg1 = partition_array n;
                   s1 \<leftarrow> push cap rest \<lparr>data = off, elements = n, segment = sg1, ret_addr = ret_addr_1\<rparr>;
                   s2 \<leftarrow> push cap s1 \<lparr>data = off, elements = q1 sg1, segment = sg1, ret_addr = ret_addr_0\<rparr>;
                   Some (st\<lparr>stk := s2, frame_capacity := cap\<rparr>)
                 }
             | ret_addr_1 \<Rightarrow> do {
                 s1 \<leftarrow> push cap rest \<lparr>data = off, elements = n, segment = sg, ret_addr = ret_addr_2\<rparr>;
                 s2 \<leftarrow> push cap s1 \<lparr>data = off + q1 sg, elements = q2 sg, segment = sg, ret_addr = ret_addr_0\<rparr>;
                 Some (st\<lparr>stk := s2, frame_capacity := cap\<rparr>)
               }
             | ret_addr_2 \<Rightarrow> do {
                 s1 \<leftarrow> push cap rest \<lparr>data = off, elements = n, segment = sg, ret_addr = ret_addr_3\<rparr>;
                 s2 \<leftarrow> push cap s1 \<lparr>data = off + lh sg, elements = q3 sg, segment = sg, ret_addr = ret_addr_0\<rparr>;
                 Some (st\<lparr>stk := s2, frame_capacity := cap\<rparr>)
               }
             | ret_addr_3 \<Rightarrow> do {
                 s1 \<leftarrow> push cap rest \<lparr>data = off, elements = n, segment = sg, ret_addr = ret_addr_4\<rparr>;
                 s2 \<leftarrow> push cap s1 \<lparr>data = off + lh sg + q3 sg, elements = q4 sg, segment = sg, ret_addr = ret_addr_0\<rparr>;
                 Some (st\<lparr>stk := s2, frame_capacity := cap\<rparr>)
               }
             | ret_addr_4 \<Rightarrow> do {
                 (v, sw1, arg1) \<leftarrow> merge_decision cmp (drop off (ptr st)) (swap st) n sg (ctx st);
                 Some (st\<lparr>ptr := take off (ptr st) @ v, swap := sw1, stk := rest,
                           frame_capacity := cap, ctx := arg1\<rparr>)
               }))"

text \<open>
  The loop runs while frames remain. It ends because every iteration lowers the work
  left on the stack: \<open>run_cost n\<close> bounds the iterations a run of \<open>n\<close> elements
  takes from its entry frame, \<open>frame_cost\<close> what a frame still owes.
\<close>

function run_cost :: "nat \<Rightarrow> nat" where
  "run_cost n =
     (if n \<le> 7 then 1
      else 5 + run_cost (q1 (partition_array n)) + run_cost (q2 (partition_array n))
             + run_cost (q3 (partition_array n)) + run_cost (q4 (partition_array n)))"
  by pat_completeness auto
termination
  by (relation "measure id") (auto simp: partition_array_def Let_def)

declare run_cost.simps [simp del]

definition frame_cost :: "stack_frame_t \<Rightarrow> nat" where
  "frame_cost f =
     (case ret_addr f of
        ret_addr_0 \<Rightarrow> run_cost (elements f)
      | ret_addr_1 \<Rightarrow> 4 + run_cost (q2 (segment f)) + run_cost (q3 (segment f)) + run_cost (q4 (segment f))
      | ret_addr_2 \<Rightarrow> 3 + run_cost (q3 (segment f)) + run_cost (q4 (segment f))
      | ret_addr_3 \<Rightarrow> 2 + run_cost (q4 (segment f))
      | ret_addr_4 \<Rightarrow> 1)"

definition stack_cost :: "stack_frame_t list \<Rightarrow> nat" where
  "stack_cost s = sum_list (map frame_cost s)"

lemma run_cost_pos: "0 < run_cost n"
  by (subst run_cost.simps) simp

lemma frame_cost_pos: "0 < frame_cost f"
  by (cases "ret_addr f") (simp_all add: frame_cost_def run_cost_pos)

lemma push_Some: "push cap s f = Some s' \<Longrightarrow> s' = f # s"
  by (simp add: push_def split: if_splits)

lemma xsort_step_cost:
  assumes "xsort_step cmp st = Some st'"
  shows "stack_cost (stk st') < stack_cost (stk st)"
proof -
  from assms obtain fr rest where s: "stk st = fr # rest"
    by (cases "stk st") (auto simp: xsort_step_def)
  show ?thesis
  proof (cases "ret_addr fr")
    case ret_addr_0
    show ?thesis
    proof (cases "elements fr \<le> 7")
      case True
      with assms s ret_addr_0 have "stk st' = rest"
        by (auto simp: xsort_step_def Let_def split: Option.bind_splits)
      with s show ?thesis using frame_cost_pos[of fr] by (simp add: stack_cost_def)
    next
      case False
      then have rc: "run_cost (elements fr) =
          5 + run_cost (q1 (partition_array (elements fr))) + run_cost (q2 (partition_array (elements fr)))
            + run_cost (q3 (partition_array (elements fr))) + run_cost (q4 (partition_array (elements fr)))"
        by (subst run_cost.simps) simp
      from False assms s ret_addr_0 have "stk st' =
         [\<lparr>data = data fr, elements = q1 (partition_array (elements fr)), segment = partition_array (elements fr), ret_addr = ret_addr_0\<rparr>,
          \<lparr>data = data fr, elements = elements fr, segment = partition_array (elements fr), ret_addr = ret_addr_1\<rparr>] @ rest"
        by (auto simp: xsort_step_def Let_def split: Option.bind_splits dest!: push_Some)
      with s ret_addr_0 rc show ?thesis 
        by (simp add: stack_cost_def frame_cost_def)
    qed
  next
    case ret_addr_1
    with assms s have "stk st' =
         [\<lparr>data = data fr + q1 (segment fr), elements = q2 (segment fr), segment = segment fr, ret_addr = ret_addr_0\<rparr>,
          \<lparr>data = data fr, elements = elements fr, segment = segment fr, ret_addr = ret_addr_2\<rparr>] @ rest"
      by (auto simp: xsort_step_def Let_def split: Option.bind_splits dest!: push_Some)
    with s ret_addr_1 show ?thesis 
      by (simp add: stack_cost_def frame_cost_def)
  next
    case ret_addr_2
    with assms s have "stk st' =
         [\<lparr>data = data fr + lh (segment fr), elements = q3 (segment fr), segment = segment fr, ret_addr = ret_addr_0\<rparr>,
          \<lparr>data = data fr, elements = elements fr, segment = segment fr, ret_addr = ret_addr_3\<rparr>] @ rest"
      by (auto simp: xsort_step_def Let_def split: Option.bind_splits dest!: push_Some)
    with s ret_addr_2 show ?thesis 
      by (simp add: stack_cost_def frame_cost_def)
  next
    case ret_addr_3
    with assms s have "stk st' =
         [\<lparr>data = data fr + lh (segment fr) + q3 (segment fr), elements = q4 (segment fr), segment = segment fr, ret_addr = ret_addr_0\<rparr>,
          \<lparr>data = data fr, elements = elements fr, segment = segment fr, ret_addr = ret_addr_4\<rparr>] @ rest"
      by (auto simp: xsort_step_def Let_def split: Option.bind_splits dest!: push_Some)
    with s ret_addr_3 show ?thesis 
      by (simp add: stack_cost_def frame_cost_def)
  next
    case ret_addr_4
    with assms s have "stk st' = rest"
      by (auto simp: xsort_step_def Let_def split: Option.bind_splits)
    with s show ?thesis using frame_cost_pos[of fr] by (simp add: stack_cost_def)
  qed
qed

function xsort_loop :: "('a, 'c) cmp_ctx_fn_t \<Rightarrow> ('a, 'c) xsort_state \<Rightarrow> ('a list \<times> 'c) option" where
  "xsort_loop cmp st =
     (if stk st = [] then Some (ptr st, ctx st)
      else case xsort_step cmp st of
             None \<Rightarrow> None
           | Some st' \<Rightarrow> xsort_loop cmp st')"
  by pat_completeness auto
termination
  by (relation "measure (\<lambda>(cmp, st). stack_cost (stk st))") (auto intro: xsort_step_cost)

declare xsort_loop.simps [simp del]

text \<open>
  \<open>xsort(ptr, elements, cmp, arg)\<close>. The allocator is outside the model: \<open>swap0\<close>
  is the block \<open>xmalloc\<close> returns for the auxiliary buffer, with whatever it holds,
  and the frame stack starts with room for 128 frames. The result is the buffer and the
  context on return.
\<close>

definition xsort_init :: "'a list \<Rightarrow> 'a list \<Rightarrow> nat \<Rightarrow> 'c \<Rightarrow> ('a, 'c) xsort_state" where
  "xsort_init swap0 p n arg =
     \<lparr>ptr = p, swap = swap0,
      stk = [\<lparr>data = 0, elements = n,
              segment = \<lparr>lh = 0, q1 = 0, q2 = 0, rh = 0, q3 = 0, q4 = 0\<rparr>,
              ret_addr = ret_addr_0\<rparr>],
      frame_capacity = 128, ctx = arg\<rparr>"

definition xsort :: "('a, 'c) cmp_ctx_fn_t \<Rightarrow> 'a list \<Rightarrow> 'a list \<Rightarrow> nat \<Rightarrow> 'c \<Rightarrow> ('a list \<times> 'c) option" where
  "xsort cmp swap0 p n arg = xsort_loop cmp (xsort_init swap0 p n arg)"

text \<open>The state after the first \<open>k\<close> iterations of the loop.\<close>

fun xsort_iter :: "('a, 'c) cmp_ctx_fn_t \<Rightarrow> nat \<Rightarrow> ('a, 'c) xsort_state \<Rightarrow> ('a, 'c) xsort_state option" where
  "xsort_iter cmp 0 st = Some st"
| "xsort_iter cmp (Suc k) st = Option.bind (xsort_step cmp st) (xsort_iter cmp k)"

section \<open>Comparators used to state the claims\<close>

text \<open>A comparator that ignores the context: a function of the two elements.\<close>

definition pure_cmp :: "('a \<Rightarrow> 'a \<Rightarrow> int) \<Rightarrow> ('a, 'c) cmp_ctx_fn_t" where
  "pure_cmp f a b arg = (f a b, arg)"

text \<open>A comparator that counts its invocations in the context, next to what \<open>cmp\<close> keeps there.\<close>

definition counted :: "('a, 'c) cmp_ctx_fn_t \<Rightarrow> ('a, 'c \<times> nat) cmp_ctx_fn_t" where
  "counted cmp a b = (\<lambda>(arg, k). case cmp a b arg of (r, arg1) \<Rightarrow> (r, (arg1, Suc k)))"

text \<open>The numeric ascending comparator on integers.\<close>

definition int_cmp :: "int \<Rightarrow> int \<Rightarrow> int" where
  "int_cmp a b = a - b"

lemma cmp_at_counted:
  "cmp_at (counted cmp) p i j (arg, k) =
     map_option (\<lambda>(r, arg1). (r, (arg1, Suc k))) (cmp_at cmp p i j arg)"
  by (auto simp: cmp_at_def counted_def split: Option.bind_splits prod.splits)

lemma xchg_ctx_counted:
  "xchg_ctx (counted cmp) p i (arg, k) =
     map_option (\<lambda>(res, p1, arg1). (res, p1, (arg1, Suc k))) (xchg_ctx cmp p i arg)"
  by (auto simp: xchg_ctx_def cmp_at_counted Let_def split: Option.bind_splits prod.splits)

lemma xchg_ctx_total:
  "i + 1 < length p \<Longrightarrow> \<exists>res p1 arg1. xchg_ctx cmp p i arg = Some (res, p1, arg1) \<and> length p1 = length p"
  by (auto simp: xchg_ctx_def cmp_at_def rd_def wr_def Let_def split: prod.splits)

section \<open>The partitioner (C4)\<close>

lemma half_split: "(m::nat) - m div 2 = m div 2 + m mod 2"
  by arith

lemma half_join: "(m::nat) div 2 + (m div 2 + m mod 2) = m"
  by arith

text \<open>
  C4 as the spec states it gives the extra element of an odd length to the first half
  and the first quarter. The code computes \<open>left = elements / 2\<close> and
  \<open>right = elements - left\<close>, so the extra element goes to the second part: a run
  of 9 elements has halves 4 and 5, and the right half has quarters 2 and 3.
\<close>

theorem partition_array_odd_counterexample:
  "lh (partition_array 9) = 4 \<and> rh (partition_array 9) = 5
   \<and> q3 (partition_array 9) = 2 \<and> q4 (partition_array 9) = 3"
  by (simp add: partition_array_def Let_def)

text \<open>
  C4 (amended): for every run length \<open>n\<close> the segment descriptor satisfies
  \<open>lh = q1 + q2\<close>, \<open>rh = q3 + q4\<close> and \<open>lh + rh = n\<close>; the two halves and
  the two quarters of each half differ by at most one element, and when a length is odd
  the extra element is in the second half (respectively the second quarter).
\<close>

theorem partition_array_split:
  "lh (partition_array n) = q1 (partition_array n) + q2 (partition_array n)
   \<and> rh (partition_array n) = q3 (partition_array n) + q4 (partition_array n)
   \<and> lh (partition_array n) + rh (partition_array n) = n
   \<and> rh (partition_array n) = lh (partition_array n) + n mod 2
   \<and> q2 (partition_array n) = q1 (partition_array n) + lh (partition_array n) mod 2
   \<and> q4 (partition_array n) = q3 (partition_array n) + rh (partition_array n) mod 2"
  by (simp add: partition_array_def Let_def half_split half_join)

section \<open>Runs of length 0 and 1 (C9)\<close>

text \<open>
  C9: \<open>xsort\<close> with an element count of 0 or 1 returns with the buffer unchanged and
  the comparator's context unchanged, whatever the comparator is; with a counting
  comparator the count of invocations stays where it was.
\<close>

theorem xsort_noop:
  "xsort cmp swap0 p 0 arg = Some (p, arg) \<and> xsort cmp swap0 p 1 arg = Some (p, arg)
   \<and> xsort (counted cmp) swap0 p 0 (arg, k) = Some (p, (arg, k))
   \<and> xsort (counted cmp) swap0 p 1 (arg, k) = Some (p, (arg, k))"
  by (simp add: xsort_def xsort_init_def xsort_loop.simps xsort_step_def oddeven_sort_ctx_def)

section \<open>Runs of length 3 (C6)\<close>

text \<open>
  C6 as the spec states it counts one comparison in the best case and two in the worst.
  The code always compares the first pair and then the second pair, and compares the
  first pair once more when the second pair was exchanged: two comparisons on
  \<open>[1, 2, 3]\<close>, three on \<open>[3, 2, 1]\<close>.
\<close>

theorem oddeven3_cost_counterexample:
  "oddeven_sort_ctx (counted (pure_cmp int_cmp)) [1, 2, 3] 3 ((), 0) = Some ([1, 2, 3], ((), 2))
   \<and> oddeven_sort_ctx (counted (pure_cmp int_cmp)) [3, 2, 1] 3 ((), 0) = Some ([1, 2, 3], ((), 3))"
  by (simp add: oddeven_sort_ctx_def xchg_ctx_def cmp_at_def rd_def wr_def counted_def pure_cmp_def int_cmp_def)

text \<open>
  C6 (amended): sorting a run of length 3 performs a compare-exchange on the first pair,
  then one on the second pair; it returns there, with the run those two exchanges left,
  when the second pair was not exchanged, and otherwise performs a third compare-exchange
  on the first pair and returns the run that leaves. The comparator is invoked exactly
  twice in the first case and exactly three times in the second. A compare-exchange on
  the pair at \<open>i\<close> calls the comparator once on the two cells and swaps them exactly when
  the result is \<open>> 0\<close>.
\<close>

theorem oddeven3_cost:
  assumes "3 \<le> length p"
  shows "\<exists>r1 s1 a1 r2 s2 a2 r3 s3 a3.
           xchg_ctx cmp p 0 arg = Some (r1, s1, a1)
           \<and> xchg_ctx cmp s1 1 a1 = Some (r2, s2, a2)
           \<and> xchg_ctx cmp s2 0 a2 = Some (r3, s3, a3)
           \<and> r1 = (0 < fst (cmp (p ! 0) (p ! 1) arg))
           \<and> s1 = (if r1 then p[0 := p ! 1, 1 := p ! 0] else p) \<and> a1 = snd (cmp (p ! 0) (p ! 1) arg)
           \<and> r2 = (0 < fst (cmp (s1 ! 1) (s1 ! 2) a1))
           \<and> s2 = (if r2 then s1[1 := s1 ! 2, 2 := s1 ! 1] else s1) \<and> a2 = snd (cmp (s1 ! 1) (s1 ! 2) a1)
           \<and> r3 = (0 < fst (cmp (s2 ! 0) (s2 ! 1) a2))
           \<and> s3 = (if r3 then s2[0 := s2 ! 1, 1 := s2 ! 0] else s2) \<and> a3 = snd (cmp (s2 ! 0) (s2 ! 1) a2)
           \<and> oddeven_sort_ctx cmp p 3 arg = Some (if r2 then (s3, a3) else (s2, a2))
           \<and> oddeven_sort_ctx (counted cmp) p 3 (arg, k)
               = Some (if r2 then (s3, (a3, k + 3)) else (s2, (a2, k + 2)))"
proof -
  have xc: "\<And>q i a. i + 1 < length q \<Longrightarrow> xchg_ctx cmp q i a
      = Some (0 < fst (cmp (q ! i) (q ! (i + 1)) a),
              if 0 < fst (cmp (q ! i) (q ! (i + 1)) a) then q[i := q ! (i + 1), i + 1 := q ! i] else q,
              snd (cmp (q ! i) (q ! (i + 1)) a))"
    by (auto simp: xchg_ctx_def cmp_at_def rd_def wr_def Let_def split: prod.splits intro: list_eq_iff_nth_eq[THEN iffD2])
  define r1 where "r1 = (0 < fst (cmp (p ! 0) (p ! 1) arg))"
  define s1 where "s1 = (if r1 then p[0 := p ! 1, 1 := p ! 0] else p)"
  define a1 where "a1 = snd (cmp (p ! 0) (p ! 1) arg)"
  define r2 where "r2 = (0 < fst (cmp (s1 ! 1) (s1 ! 2) a1))"
  define s2 where "s2 = (if r2 then s1[1 := s1 ! 2, 2 := s1 ! 1] else s1)"
  define a2 where "a2 = snd (cmp (s1 ! 1) (s1 ! 2) a1)"
  define r3 where "r3 = (0 < fst (cmp (s2 ! 0) (s2 ! 1) a2))"
  define s3 where "s3 = (if r3 then s2[0 := s2 ! 1, 1 := s2 ! 0] else s2)"
  define a3 where "a3 = snd (cmp (s2 ! 0) (s2 ! 1) a2)"
  have l1: "length s1 = length p" by (simp add: s1_def)
  have l2: "length s2 = length p" by (simp add: s2_def l1)
  have x1: "xchg_ctx cmp p 0 arg = Some (r1, s1, a1)"
    using xc[of 0 p arg] assms by (simp add: r1_def s1_def a1_def)
  have x2: "xchg_ctx cmp s1 1 a1 = Some (r2, s2, a2)"
    using xc[of 1 s1 a1] assms l1 by (simp add: r2_def s2_def a2_def numeral_2_eq_2)
  have x3: "xchg_ctx cmp s2 0 a2 = Some (r3, s3, a3)"
    using xc[of 0 s2 a2] assms l2 by (simp add: r3_def s3_def a3_def)
  have o: "oddeven_sort_ctx cmp p 3 arg = Some (if r2 then (s3, a3) else (s2, a2))"
    using x1 x2 x3 by (cases r2) (simp_all add: oddeven_sort_ctx_def)
  have oc: "oddeven_sort_ctx (counted cmp) p 3 (arg, k)
      = Some (if r2 then (s3, (a3, k + 3)) else (s2, (a2, k + 2)))"
    using x1 x2 x3 by (cases r2) (simp_all add: oddeven_sort_ctx_def xchg_ctx_counted)
  show ?thesis
    apply (rule exI[of _ r1], rule exI[of _ s1], rule exI[of _ a1])
    apply (rule exI[of _ r2], rule exI[of _ s2], rule exI[of _ a2])
    apply (rule exI[of _ r3], rule exI[of _ s3], rule exI[of _ a3])
    by (intro conjI) (rule x1 x2 x3 r1_def s1_def a1_def r2_def s2_def a2_def r3_def s3_def a3_def o oc)+
qed

theorem oddeven3_cost_witness:
  "(3 :: nat) \<le> length [2, 3, 1 :: int]
   \<and> xchg_ctx (pure_cmp int_cmp) [2, 3, 1] 0 () = Some (False, [2, 3, 1], ())
   \<and> xchg_ctx (pure_cmp int_cmp) [2, 3, 1] 1 () = Some (True, [2, 1, 3], ())
   \<and> xchg_ctx (pure_cmp int_cmp) [2, 1, 3] 0 () = Some (True, [1, 2, 3], ())
   \<and> oddeven_sort_ctx (pure_cmp int_cmp) [2, 3, 1] 3 () = Some ([1, 2, 3], ())
   \<and> oddeven_sort_ctx (counted (pure_cmp int_cmp)) [2, 3, 1] 3 ((), 0) = Some ([1, 2, 3], ((), 3))"
proof -
  have l: "3 \<le> length [2, 3, 1 :: int]" by simp
  have v1: "xchg_ctx (pure_cmp int_cmp) [2, 3, 1] 0 () = Some (False, [2, 3, 1], ())"
    and v2: "xchg_ctx (pure_cmp int_cmp) [2, 3, 1] 1 () = Some (True, [2, 1, 3], ())"
    and v3: "xchg_ctx (pure_cmp int_cmp) [2, 1, 3] 0 () = Some (True, [1, 2, 3], ())"
    by (simp_all add: xchg_ctx_def cmp_at_def rd_def wr_def pure_cmp_def int_cmp_def)
  from oddeven3_cost[OF l, of "pure_cmp int_cmp" "()" 0] show ?thesis
  proof (elim exE conjE)
    fix r1 s1 a1 r2 s2 a2 r3 s3 a3
    assume x1: "xchg_ctx (pure_cmp int_cmp) [2, 3, 1] 0 () = Some (r1, s1, a1)"
      and x2: "xchg_ctx (pure_cmp int_cmp) s1 1 a1 = Some (r2, s2, a2)"
      and x3: "xchg_ctx (pure_cmp int_cmp) s2 0 a2 = Some (r3, s3, a3)"
      and o: "oddeven_sort_ctx (pure_cmp int_cmp) [2, 3, 1] 3 () = Some (if r2 then (s3, a3) else (s2, a2))"
      and oc: "oddeven_sort_ctx (counted (pure_cmp int_cmp)) [2, 3, 1] 3 ((), 0)
               = Some (if r2 then (s3, (a3, 0 + 3)) else (s2, (a2, 0 + 2)))"
    from x1 v1 have e1: "s1 = [2, 3, 1]" by simp
    from x2 v2 e1 have e2: "r2 = True" "s2 = [2, 1, 3]" by simp_all
    from x3 v3 e2 have e3: "s3 = [1, 2, 3]" by simp
    from o oc e2 e3 l v1 v2 v3 show ?thesis by simp
  qed
qed

section \<open>The parity merger: bounds and cost (C5)\<close>

lemma merge_head_counted:
  "merge_head (counted cmp) src dst i j l (arg, k) =
     map_option (\<lambda>(hl, dst1, arg1). (hl, dst1, (arg1, Suc k))) (merge_head cmp src dst i j l arg)"
  by (auto simp: merge_head_def cmp_at_counted split: Option.bind_splits prod.splits)

lemma merge_tail_counted:
  "merge_tail (counted cmp) src dst i j l (arg, k) =
     map_option (\<lambda>(tl, dst1, arg1). (tl, dst1, (arg1, Suc k))) (merge_tail cmp src dst i j l arg)"
  by (auto simp: merge_tail_def cmp_at_counted split: Option.bind_splits prod.splits)

lemma merge_head_total:
  "i_ptl < length src \<Longrightarrow> i_ptr < length src \<Longrightarrow> i_ptd < N \<Longrightarrow> N \<le> length dst \<Longrightarrow>
   \<exists>hl dst1 arg1. merge_head cmp src dst i_ptd i_ptl i_ptr arg = Some (hl, dst1, arg1)
      \<and> length dst1 = length dst \<and> drop N dst1 = drop N dst"
  by (auto simp: merge_head_def cmp_at_def rd_def wr_def split: prod.splits)

lemma merge_tail_total:
  "i_tpl < length src \<Longrightarrow> i_tpr < length src \<Longrightarrow> i_tpd < N \<Longrightarrow> N \<le> length dst \<Longrightarrow>
   \<exists>tl dst1 arg1. merge_tail cmp src dst i_tpd i_tpl i_tpr arg = Some (tl, dst1, arg1)
      \<and> length dst1 = length dst \<and> drop N dst1 = drop N dst"
  by (auto simp: merge_tail_def cmp_at_def rd_def wr_def split: prod.splits)

lemma parity_loop_Suc:
  "parity_loop cmp src dst (Suc m) i_ptd i_tpd i_ptl i_ptr i_tpl i_tpr arg =
     (if m \<noteq> 0 then do {
        (hl, dst1, arg1) \<leftarrow> merge_head cmp src dst i_ptd i_ptl i_ptr arg;
        (tl, dst2, arg2) \<leftarrow> merge_tail cmp src dst1 i_tpd i_tpl i_tpr arg1;
        parity_loop cmp src dst2 m (i_ptd + 1) (i_tpd - 1)
          (if hl then i_ptl + 1 else i_ptl) (if hl then i_ptr else i_ptr + 1)
          (if tl then i_tpl - 1 else i_tpl) (if tl then i_tpr else i_tpr - 1) arg2
      }
      else Some (dst, i_ptd, i_tpd, i_ptl, i_ptr, i_tpl, i_tpr, arg))"
  by (subst parity_loop.simps) simp

lemma parity_loop_0:
  "parity_loop cmp src dst 0 i_ptd i_tpd i_ptl i_ptr i_tpl i_tpr arg = None"
  by (subst parity_loop.simps) simp

lemma parity_loop_counted:
  "parity_loop (counted cmp) src dst m i_ptd i_tpd i_ptl i_ptr i_tpl i_tpr (arg, k) =
     map_option (\<lambda>(d, a, b, c, e, f, g, arg1). (d, a, b, c, e, f, g, (arg1, k + 2 * (m - 1))))
       (parity_loop cmp src dst m i_ptd i_tpd i_ptl i_ptr i_tpl i_tpr arg)"
proof (induction m arbitrary: dst i_ptd i_tpd i_ptl i_ptr i_tpl i_tpr arg k)
  case 0
  show ?case by (simp add: parity_loop_0)
next
  case (Suc m)
  show ?case
  proof (cases "m = 0")
    case True
    then show ?thesis by (simp add: parity_loop_Suc)
  next
    case False
    then have ar: "\<And>j. Suc (Suc (j + 2 * (m - Suc 0))) = j + 2 * m" by simp
    show ?thesis
      unfolding parity_loop_Suc[of _ _ _ m]
      by (auto simp add: False merge_head_counted merge_tail_counted Suc.IH ar
               split: Option.bind_split)
  qed
qed

lemma parity_loop_total:
  assumes "1 \<le> m" "i_ptd + m \<le> N" "i_tpd < N" "N \<le> length dst"
    "i_ptl + m \<le> length src" "i_ptr + m \<le> length src"
    "i_tpl < length src" "i_tpr < length src"
  shows "\<exists>dst1 ptd1 tpd1 ptl1 ptr1 tpl1 tpr1 arg1.
           parity_loop cmp src dst m i_ptd i_tpd i_ptl i_ptr i_tpl i_tpr arg
             = Some (dst1, ptd1, tpd1, ptl1, ptr1, tpl1, tpr1, arg1)
           \<and> length dst1 = length dst \<and> drop N dst1 = drop N dst \<and> ptd1 < N \<and> tpd1 < N
           \<and> ptl1 < length src \<and> ptr1 < length src \<and> tpl1 < length src \<and> tpr1 < length src"
  using assms
proof (induction m arbitrary: dst i_ptd i_tpd i_ptl i_ptr i_tpl i_tpr arg)
  case 0
  then show ?case by simp
next
  case (Suc m)
  show ?case
  proof (cases "m = 0")
    case True
    with Suc.prems show ?thesis by (simp add: parity_loop_Suc)
  next
    case False
    from Suc.prems have "i_ptl < length src" "i_ptr < length src" "i_ptd < N" by auto
    with Suc.prems obtain hl dst1 arg1 where
      h: "merge_head cmp src dst i_ptd i_ptl i_ptr arg = Some (hl, dst1, arg1)"
      and l1: "length dst1 = length dst" "drop N dst1 = drop N dst"
      using merge_head_total[of i_ptl src i_ptr i_ptd N dst cmp arg] by blast
    from Suc.prems l1 obtain tl dst2 arg2 where
      t: "merge_tail cmp src dst1 i_tpd i_tpl i_tpr arg1 = Some (tl, dst2, arg2)"
      and l2: "length dst2 = length dst" "drop N dst2 = drop N dst"
      using merge_tail_total[of i_tpl src i_tpr i_tpd N dst1 cmp arg1] by auto
    have "\<exists>d ptd1 tpd1 ptl1 ptr1 tpl1 tpr1 a.
           parity_loop cmp src dst2 m (i_ptd + 1) (i_tpd - 1)
             (if hl then i_ptl + 1 else i_ptl) (if hl then i_ptr else i_ptr + 1)
             (if tl then i_tpl - 1 else i_tpl) (if tl then i_tpr else i_tpr - 1) arg2
             = Some (d, ptd1, tpd1, ptl1, ptr1, tpl1, tpr1, a)
           \<and> length d = length dst2 \<and> drop N d = drop N dst2 \<and> ptd1 < N \<and> tpd1 < N
           \<and> ptl1 < length src \<and> ptr1 < length src \<and> tpl1 < length src \<and> tpr1 < length src"
      using Suc.prems False l2 by (intro Suc.IH) auto
    then show ?thesis
      by (simp add: parity_loop_Suc False h t l2)
  qed
qed

lemma parity_merge_ctx_total:
  assumes "1 \<le> L" "L \<le> R" "L + R \<le> length src" "L + R \<le> length dst"
  shows "\<exists>d arg1. parity_merge_ctx cmp src dst L R arg = Some (d, arg1) \<and> length d = length dst
           \<and> drop (L + R) d = drop (L + R) dst"
proof -
  have "\<exists>dst0 ptd0 ptl0 ptr0 arg0.
      (if L < R then do {
          (hl, dst1, arg1) \<leftarrow> merge_head cmp src dst 0 0 L arg;
          Some (dst1, 1, if hl then 1 else 0, if hl then L else L + 1, arg1)
        }
        else Some (dst, 0, 0, L, arg)) = Some (dst0, ptd0, ptl0, ptr0, arg0)
      \<and> length dst0 = length dst \<and> drop (L + R) dst0 = drop (L + R) dst
      \<and> ptd0 + L \<le> L + R \<and> ptl0 + L \<le> length src
      \<and> ptr0 + L \<le> length src"
  proof (cases "L < R")
    case True
    from True assms have "0 < length src" "L < length src" "0 < L + R" by auto
    then obtain hl dst1 arg1 where
      "merge_head cmp src dst 0 0 L arg = Some (hl, dst1, arg1)" "length dst1 = length dst"
      "drop (L + R) dst1 = drop (L + R) dst"
      using merge_head_total[of 0 src L 0 "L + R" dst cmp arg] assms(4) by blast
    with True assms show ?thesis by simp
  next
    case False
    with assms show ?thesis by simp
  qed
  then obtain dst0 ptd0 ptl0 ptr0 arg0 where
    h: "(if L < R then do {
          (hl, dst1, arg1) \<leftarrow> merge_head cmp src dst 0 0 L arg;
          Some (dst1, 1, if hl then 1 else 0, if hl then L else L + 1, arg1)
        }
        else Some (dst, 0, 0, L, arg)) = Some (dst0, ptd0, ptl0, ptr0, arg0)"
    and b: "length dst0 = length dst" "drop (L + R) dst0 = drop (L + R) dst"
      "ptd0 + L \<le> L + R" "ptl0 + L \<le> length src" "ptr0 + L \<le> length src"
    by blast
  have pre: "1 \<le> L" "ptd0 + L \<le> L + R" "L + R - Suc 0 < L + R" "L + R \<le> length dst0"
    "ptl0 + L \<le> length src" "ptr0 + L \<le> length src" "L - Suc 0 < length src"
    "L + R - Suc 0 < length src"
    using assms b by auto
  obtain dst2 ptd2 tpd2 ptl2 ptr2 tpl2 tpr2 arg2 where
    lp: "parity_loop cmp src dst0 L ptd0 (L + R - Suc 0) ptl0 ptr0 (L - Suc 0) (L + R - Suc 0) arg0
       = Some (dst2, ptd2, tpd2, ptl2, ptr2, tpl2, tpr2, arg2)"
    and b2: "length dst2 = length dst0" "drop (L + R) dst2 = drop (L + R) dst0"
      "ptd2 < L + R" "tpd2 < L + R"
      "ptl2 < length src" "ptr2 < length src" "tpl2 < length src" "tpr2 < length src"
    using parity_loop_total[OF pre, of cmp arg0] by blast
  from b2 b assms(4) obtain tl dst3 arg3 where
    t: "merge_tail cmp src dst2 tpd2 tpl2 tpr2 arg2 = Some (tl, dst3, arg3)"
    and l3: "length dst3 = length dst2" "drop (L + R) dst3 = drop (L + R) dst2"
    using merge_tail_total[of tpl2 src tpr2 tpd2 "L + R" dst2 cmp arg2] by auto
  from b2 b l3 assms(4) obtain hl dst4 arg4 where
    hd: "merge_head cmp src dst3 ptd2 ptl2 ptr2 arg3 = Some (hl, dst4, arg4)"
    and l4: "length dst4 = length dst3" "drop (L + R) dst4 = drop (L + R) dst3"
    using merge_head_total[of ptl2 src ptr2 ptd2 "L + R" dst3 cmp arg3] by auto
  have "parity_merge_ctx cmp src dst L R arg = Some (dst4, arg4)"
    using assms by (simp add: parity_merge_ctx_def idx_pred_def h lp t hd)
  with l4 l3 b2 b show ?thesis by simp
qed

lemma parity_merge_ctx_counted:
  "parity_merge_ctx (counted cmp) src dst L R (arg, k) =
     map_option (\<lambda>(d, arg1). (d, (arg1, k + 2 * L + (if L < R then 1 else 0))))
       (parity_merge_ctx cmp src dst L R arg)"
proof (cases "L = 0")
  case True
  then show ?thesis by (simp add: parity_merge_ctx_def idx_pred_def parity_loop_0 split: Option.bind_split)
next
  case False
  then have ar: "\<And>j. Suc (Suc (j + 2 * (L - Suc 0))) = j + 2 * L" by simp
  show ?thesis
  proof (cases "L < R")
    case True
    with False ar show ?thesis
      by (auto simp add: parity_merge_ctx_def idx_pred_def parity_loop_counted merge_head_counted
            merge_tail_counted split: Option.bind_split)
  next
    case nl: False
    with False ar[of k] show ?thesis
      by (auto simp add: parity_merge_ctx_def idx_pred_def parity_loop_counted merge_head_counted
            merge_tail_counted split: Option.bind_split)
  qed
qed


text \<open>
  C5 as the spec states it counts \<open>L + R - 1\<close> comparisons. The code compares once
  per element it writes, and it writes \<open>2L\<close> elements, or \<open>2L + 1\<close> when
  \<open>L < R\<close>: two comparisons for two runs of one element, and seven for runs of 3 and 6
  elements.
\<close>

theorem parity_merge_cost_counterexample:
  "parity_merge_ctx (counted (pure_cmp int_cmp)) [1, 3] [0, 0] 1 1 ((), 0) = Some ([1, 3], ((), 2))
   \<and> parity_merge_ctx (counted (pure_cmp int_cmp)) [1, 3, 5, 2, 4, 6, 7, 8, 9] [0, 0, 0, 0, 0, 0, 0, 0, 0] 3 6 ((), 0)
       = Some ([1, 2, 3, 4, 0, 0, 7, 8, 9], ((), 7))"
  by (simp add: parity_merge_ctx_def parity_loop.simps merge_head_def merge_tail_def idx_pred_def
        cmp_at_def rd_def wr_def counted_def pure_cmp_def int_cmp_def)

text \<open>
  C5 (amended): for two adjacent runs of lengths \<open>L \<ge> 1\<close> and \<open>R \<ge> L\<close>, one call
  of the parity merger invokes the comparator exactly \<open>2L\<close> times when \<open>L = R\<close> and
  exactly \<open>2L + 1\<close> times when \<open>L < R\<close>, whatever the elements and the comparator
  are; for the runs the engine merges (\<open>R = L\<close> or \<open>R = L + 1\<close>) that is \<open>L + R\<close>.
\<close>

theorem parity_merge_cost:
  assumes "1 \<le> L" "L \<le> R" "L + R \<le> length src" "L + R \<le> length dst"
  shows "\<exists>d arg1. parity_merge_ctx (counted cmp) src dst L R (arg, k)
           = Some (d, (arg1, k + 2 * L + (if L < R then 1 else 0)))"
proof -
  from assms obtain d arg1 where "parity_merge_ctx cmp src dst L R arg = Some (d, arg1)"
    using parity_merge_ctx_total[of L R src dst cmp arg] by blast
  then show ?thesis by (simp add: parity_merge_ctx_counted)
qed

theorem parity_merge_cost_witness:
  "\<exists>d arg1. parity_merge_ctx (counted (pure_cmp int_cmp)) [1, 4, 2, 3, 5] [0, 0, 0, 0, 0] 2 3 ((), 0)
           = Some (d, (arg1, 0 + 2 * 2 + (if (2::nat) < 3 then 1 else 0)))"
  using parity_merge_cost[of 2 3 "[1, 4, 2, 3, 5]" "[0, 0, 0, 0, 0]" "pure_cmp int_cmp" "()" 0]
  by simp

section \<open>Descriptors on the stack and the merger's bounds (C10)\<close>

lemma partition_array_ge8:
  assumes "8 \<le> n"
  shows "2 \<le> q1 (partition_array n)" "q1 (partition_array n) \<le> q2 (partition_array n)"
    "2 \<le> q3 (partition_array n)" "q3 (partition_array n) \<le> q4 (partition_array n)"
    "4 \<le> lh (partition_array n)" "lh (partition_array n) \<le> rh (partition_array n)"
  using assms by (simp_all add: partition_array_def Let_def half_split)












section \<open>The frame protocol read as a recursion\<close>

text \<open>
  What the loop does between popping the entry frame of a run and emptying the stack
  back to the frames below it: the run is sorted by the base case, or its four quarters
  are sorted in order and the code at \<open>ret_addr_4\<close> follows.
\<close>

function sort_run :: "('a, 'c) cmp_ctx_fn_t \<Rightarrow> 'a list \<Rightarrow> 'a list \<Rightarrow> 'c \<Rightarrow> nat \<Rightarrow> nat \<Rightarrow> ('a list \<times> 'a list \<times> 'c) option" where
  "sort_run cmp p sw arg off n =
     (if n \<le> 7 then do {
        (v, arg1) \<leftarrow> oddeven_sort_ctx cmp (drop off p) n arg;
        Some (take off p @ v, sw, arg1)
      }
      else do {
        (p1, sw1, arg1) \<leftarrow> sort_run cmp p sw arg off (q1 (partition_array n));
        (p2, sw2, arg2) \<leftarrow> sort_run cmp p1 sw1 arg1 (off + q1 (partition_array n)) (q2 (partition_array n));
        (p3, sw3, arg3) \<leftarrow> sort_run cmp p2 sw2 arg2 (off + lh (partition_array n)) (q3 (partition_array n));
        (p4, sw4, arg4) \<leftarrow> sort_run cmp p3 sw3 arg3 (off + lh (partition_array n) + q3 (partition_array n)) (q4 (partition_array n));
        (v, sw5, arg5) \<leftarrow> merge_decision cmp (drop off p4) sw4 n (partition_array n) arg4;
        Some (take off p4 @ v, sw5, arg5)
      })"
  by pat_completeness auto
termination
  by (relation "measure (\<lambda>(cmp, p, sw, arg, off, n). n)")
     (simp_all add: partition_array_def Let_def)

declare sort_run.simps [simp del]

abbreviation St :: "'a list \<Rightarrow> 'a list \<Rightarrow> stack_frame_t list \<Rightarrow> nat \<Rightarrow> 'c \<Rightarrow> ('a, 'c) xsort_state" where
  "St p sw s cap arg \<equiv> \<lparr>ptr = p, swap = sw, stk = s, frame_capacity = cap, ctx = arg\<rparr>"

abbreviation Fr :: "nat \<Rightarrow> nat \<Rightarrow> segment_t \<Rightarrow> ret_addr_t \<Rightarrow> stack_frame_t" where
  "Fr off n sg l \<equiv> \<lparr>data = off, elements = n, segment = sg, ret_addr = l\<rparr>"

lemma xsort_iter_trans:
  "xsort_iter cmp j st = Some st1 \<Longrightarrow> xsort_iter cmp k st1 = Some st2 \<Longrightarrow>
   xsort_iter cmp (j + k) st = Some st2"
  by (induction j arbitrary: st) (auto split: Option.bind_splits)

lemma xsort_iter_one: "xsort_step cmp st = Some st1 \<Longrightarrow> xsort_iter cmp (Suc 0) st = Some st1"
  by simp

lemma step_base:
  assumes "n \<le> 7" "oddeven_sort_ctx cmp (drop off p) n arg = Some (v, arg1)"
  shows "\<exists>cap1\<ge>cap. xsort_step cmp (St p sw (Fr off n sg ret_addr_0 # rest) cap arg)
            = Some (St (take off p @ v) sw rest cap1 arg1)"
  using assms by (simp add: xsort_step_def)

lemma step_entry:
  assumes "\<not> n \<le> 7" "length rest < cap"
  shows "\<exists>cap1\<ge>cap. length rest + 1 < cap1 \<and> xsort_step cmp (St p sw (Fr off n sg ret_addr_0 # rest) cap arg)
            = Some (St p sw (Fr off (q1 (partition_array n)) (partition_array n) ret_addr_0
                           # Fr off n (partition_array n) ret_addr_1 # rest) cap1 arg)"
  using assms by (simp add: xsort_step_def push_def Let_def)

lemma step_1:
  assumes "length rest < cap"
  shows "\<exists>cap1\<ge>cap. length rest + 1 < cap1 \<and> xsort_step cmp (St p sw (Fr off n sg ret_addr_1 # rest) cap arg)
            = Some (St p sw (Fr (off + q1 sg) (q2 sg) sg ret_addr_0
                           # Fr off n sg ret_addr_2 # rest) cap1 arg)"
  using assms by (simp add: xsort_step_def push_def)

lemma step_2:
  assumes "length rest < cap"
  shows "\<exists>cap1\<ge>cap. length rest + 1 < cap1 \<and> xsort_step cmp (St p sw (Fr off n sg ret_addr_2 # rest) cap arg)
            = Some (St p sw (Fr (off + lh sg) (q3 sg) sg ret_addr_0
                           # Fr off n sg ret_addr_3 # rest) cap1 arg)"
  using assms by (simp add: xsort_step_def push_def)

lemma step_3:
  assumes "length rest < cap"
  shows "\<exists>cap1\<ge>cap. length rest + 1 < cap1 \<and> xsort_step cmp (St p sw (Fr off n sg ret_addr_3 # rest) cap arg)
            = Some (St p sw (Fr (off + lh sg + q3 sg) (q4 sg) sg ret_addr_0
                           # Fr off n sg ret_addr_4 # rest) cap1 arg)"
  using assms by (simp add: xsort_step_def push_def)

lemma step_4:
  assumes "merge_decision cmp (drop off p) sw n sg arg = Some (v, sw1, arg1)"
  shows "\<exists>cap1\<ge>cap. xsort_step cmp (St p sw (Fr off n sg ret_addr_4 # rest) cap arg)
            = Some (St (take off p @ v) sw1 rest cap1 arg1)"
  using assms by (simp add: xsort_step_def)


lemma sort_run_base:
  "n \<le> 7 \<Longrightarrow> sort_run cmp p sw arg off n = do {
        (v, arg1) \<leftarrow> oddeven_sort_ctx cmp (drop off p) n arg;
        Some (take off p @ v, sw, arg1)
      }"
  by (subst sort_run.simps) simp

lemma sort_run_split:
  "\<not> n \<le> 7 \<Longrightarrow> sort_run cmp p sw arg off n = do {
        (p1, sw1, arg1) \<leftarrow> sort_run cmp p sw arg off (q1 (partition_array n));
        (p2, sw2, arg2) \<leftarrow> sort_run cmp p1 sw1 arg1 (off + q1 (partition_array n)) (q2 (partition_array n));
        (p3, sw3, arg3) \<leftarrow> sort_run cmp p2 sw2 arg2 (off + lh (partition_array n)) (q3 (partition_array n));
        (p4, sw4, arg4) \<leftarrow> sort_run cmp p3 sw3 arg3 (off + lh (partition_array n) + q3 (partition_array n)) (q4 (partition_array n));
        (v, sw5, arg5) \<leftarrow> merge_decision cmp (drop off p4) sw4 n (partition_array n) arg4;
        Some (take off p4 @ v, sw5, arg5)
      }"
  by (subst sort_run.simps) simp

text \<open>The state in which the four quarters of a run are sorted and its frame waits at \<open>ret_addr_4\<close>.\<close>

definition sort_quarters :: "('a, 'c) cmp_ctx_fn_t \<Rightarrow> 'a list \<Rightarrow> 'a list \<Rightarrow> 'c \<Rightarrow> nat \<Rightarrow> segment_t \<Rightarrow> ('a list \<times> 'a list \<times> 'c) option" where
  "sort_quarters cmp p sw arg off sg = do {
        (p1, sw1, arg1) \<leftarrow> sort_run cmp p sw arg off (q1 sg);
        (p2, sw2, arg2) \<leftarrow> sort_run cmp p1 sw1 arg1 (off + q1 sg) (q2 sg);
        (p3, sw3, arg3) \<leftarrow> sort_run cmp p2 sw2 arg2 (off + lh sg) (q3 sg);
        sort_run cmp p3 sw3 arg3 (off + lh sg + q3 sg) (q4 sg)
      }"

lemma sort_run_quarters:
  "\<not> n \<le> 7 \<Longrightarrow> sort_run cmp p sw arg off n = do {
        (p4, sw4, arg4) \<leftarrow> sort_quarters cmp p sw arg off (partition_array n);
        (v, sw5, arg5) \<leftarrow> merge_decision cmp (drop off p4) sw4 n (partition_array n) arg4;
        Some (take off p4 @ v, sw5, arg5)
      }"
  by (simp add: sort_run_split sort_quarters_def split: Option.bind_split)

definition reaches :: "('a, 'c) cmp_ctx_fn_t \<Rightarrow> ('a, 'c) xsort_state \<Rightarrow> ('a, 'c) xsort_state \<Rightarrow> bool" where
  "reaches cmp st st' = (\<exists>k. xsort_iter cmp k st = Some st')"

lemma reaches_step: "xsort_step cmp st = Some st' \<Longrightarrow> reaches cmp st st'"
  unfolding reaches_def using xsort_iter_one by blast

lemma reaches_trans: "reaches cmp st st1 \<Longrightarrow> reaches cmp st1 st2 \<Longrightarrow> reaches cmp st st2"
  unfolding reaches_def using xsort_iter_trans by blast

lemma quarters_chain:
  assumes sim: "\<And>m p sw arg off p' sw' arg' rest cap sg.
      m < n \<Longrightarrow> sort_run cmp p sw arg off m = Some (p', sw', arg') \<Longrightarrow> length rest < cap \<Longrightarrow>
      \<exists>cap1\<ge>cap. reaches cmp (St p sw (Fr off m sg ret_addr_0 # rest) cap arg) (St p' sw' rest cap1 arg')"
    and big: "\<not> n \<le> 7"
    and sq: "sort_quarters cmp p sw arg off (partition_array n) = Some (p4, sw4, arg4)"
    and room: "length rest < cap"
  shows "\<exists>cap1\<ge>cap. reaches cmp (St p sw (Fr off n sg ret_addr_0 # rest) cap arg)
           (St p4 sw4 (Fr off n (partition_array n) ret_addr_4 # rest) cap1 arg4)"
proof -
  define g where "g = partition_array n"
  have lt: "q1 g < n" "q2 g < n" "q3 g < n" "q4 g < n"
    using big by (simp_all add: g_def partition_array_def Let_def)
  from sq obtain p1 sw1 arg1 p2 sw2 arg2 p3 sw3 arg3 where
    r1: "sort_run cmp p sw arg off (q1 g) = Some (p1, sw1, arg1)" and
    r2: "sort_run cmp p1 sw1 arg1 (off + q1 g) (q2 g) = Some (p2, sw2, arg2)" and
    r3: "sort_run cmp p2 sw2 arg2 (off + lh g) (q3 g) = Some (p3, sw3, arg3)" and
    r4: "sort_run cmp p3 sw3 arg3 (off + lh g + q3 g) (q4 g) = Some (p4, sw4, arg4)"
    by (auto simp: sort_quarters_def g_def split: Option.bind_splits)
  let ?S = "St p sw (Fr off n sg ret_addr_0 # rest) cap arg"
  from step_entry[OF big room, where cmp=cmp and p=p and sw=sw and off=off and sg=sg and arg=arg]
  obtain c0 where c0: "cap \<le> c0" "length rest + 1 < c0" and
    s0: "reaches cmp ?S (St p sw (Fr off (q1 g) g ret_addr_0 # Fr off n g ret_addr_1 # rest) c0 arg)"
    unfolding g_def using reaches_step by blast
  from sim[OF lt(1) r1, where rest="Fr off n g ret_addr_1 # rest" and cap=c0 and sg=g] c0
  obtain c1 where c1: "c0 \<le> c1" and
    s1: "reaches cmp (St p sw (Fr off (q1 g) g ret_addr_0 # Fr off n g ret_addr_1 # rest) c0 arg)
           (St p1 sw1 (Fr off n g ret_addr_1 # rest) c1 arg1)"
    by auto
  have "length rest < c1" using c0 c1 by simp
  from step_1[OF this, where cmp=cmp and p=p1 and sw=sw1 and off=off and n=n and sg=g and arg=arg1]
  obtain c1' where c1': "c1 \<le> c1'" "length rest + 1 < c1'" and
    s1': "reaches cmp (St p1 sw1 (Fr off n g ret_addr_1 # rest) c1 arg1)
           (St p1 sw1 (Fr (off + q1 g) (q2 g) g ret_addr_0 # Fr off n g ret_addr_2 # rest) c1' arg1)"
    using reaches_step by blast
  from sim[OF lt(2) r2, where rest="Fr off n g ret_addr_2 # rest" and cap=c1' and sg=g] c1'
  obtain c2 where c2: "c1' \<le> c2" and
    s2: "reaches cmp (St p1 sw1 (Fr (off + q1 g) (q2 g) g ret_addr_0 # Fr off n g ret_addr_2 # rest) c1' arg1)
           (St p2 sw2 (Fr off n g ret_addr_2 # rest) c2 arg2)"
    by auto
  have "length rest < c2" using c1' c2 by simp
  from step_2[OF this, where cmp=cmp and p=p2 and sw=sw2 and off=off and n=n and sg=g and arg=arg2]
  obtain c2' where c2': "c2 \<le> c2'" "length rest + 1 < c2'" and
    s2': "reaches cmp (St p2 sw2 (Fr off n g ret_addr_2 # rest) c2 arg2)
           (St p2 sw2 (Fr (off + lh g) (q3 g) g ret_addr_0 # Fr off n g ret_addr_3 # rest) c2' arg2)"
    using reaches_step by blast
  from sim[OF lt(3) r3, where rest="Fr off n g ret_addr_3 # rest" and cap=c2' and sg=g] c2'
  obtain c3 where c3: "c2' \<le> c3" and
    s3: "reaches cmp (St p2 sw2 (Fr (off + lh g) (q3 g) g ret_addr_0 # Fr off n g ret_addr_3 # rest) c2' arg2)
           (St p3 sw3 (Fr off n g ret_addr_3 # rest) c3 arg3)"
    by auto
  have "length rest < c3" using c2' c3 by simp
  from step_3[OF this, where cmp=cmp and p=p3 and sw=sw3 and off=off and n=n and sg=g and arg=arg3]
  obtain c3' where c3': "c3 \<le> c3'" "length rest + 1 < c3'" and
    s3': "reaches cmp (St p3 sw3 (Fr off n g ret_addr_3 # rest) c3 arg3)
           (St p3 sw3 (Fr (off + lh g + q3 g) (q4 g) g ret_addr_0 # Fr off n g ret_addr_4 # rest) c3' arg3)"
    using reaches_step by blast
  from sim[OF lt(4) r4, where rest="Fr off n g ret_addr_4 # rest" and cap=c3' and sg=g] c3'
  obtain c4 where c4: "c3' \<le> c4" and
    s4: "reaches cmp (St p3 sw3 (Fr (off + lh g + q3 g) (q4 g) g ret_addr_0 # Fr off n g ret_addr_4 # rest) c3' arg3)
           (St p4 sw4 (Fr off n g ret_addr_4 # rest) c4 arg4)"
    by auto
  have "reaches cmp ?S (St p4 sw4 (Fr off n g ret_addr_4 # rest) c4 arg4)"
    by (rule reaches_trans[OF reaches_trans[OF reaches_trans[OF reaches_trans[OF
          reaches_trans[OF reaches_trans[OF reaches_trans[OF s0 s1] s1'] s2] s2'] s3] s3'] s4])
  moreover have "cap \<le> c4" using c0 c1 c1' c2 c2' c3 c3' c4 by simp
  ultimately show ?thesis unfolding g_def by blast
qed

lemma run_sim:
  "sort_run cmp p sw arg off n = Some (p', sw', arg') \<Longrightarrow> length rest < cap \<Longrightarrow>
   \<exists>cap1\<ge>cap. reaches cmp (St p sw (Fr off n sg ret_addr_0 # rest) cap arg) (St p' sw' rest cap1 arg')"
proof (induction n arbitrary: p sw arg off p' sw' arg' rest cap sg rule: less_induct)
  case (less n)
  show ?case
  proof (cases "n \<le> 7")
    case True
    with less.prems(1) obtain v where
      "oddeven_sort_ctx cmp (drop off p) n arg = Some (v, arg')" "p' = take off p @ v" "sw' = sw"
      by (auto simp: sort_run_base split: Option.bind_splits)
    with step_base[OF True this(1), where cap=cap and sw=sw and sg=sg and rest=rest] show ?thesis
      using reaches_step by blast
  next
    case False
    from less.prems(1) False obtain p4 sw4 arg4 v where
      sq: "sort_quarters cmp p sw arg off (partition_array n) = Some (p4, sw4, arg4)" and
      md: "merge_decision cmp (drop off p4) sw4 n (partition_array n) arg4 = Some (v, sw', arg')" and
      pe: "p' = take off p4 @ v"
      by (auto simp: sort_run_quarters split: Option.bind_splits)
    from quarters_chain[OF less.IH False sq less.prems(2), where sg=sg]
    obtain c4 where c4: "cap \<le> c4" and
      s4: "reaches cmp (St p sw (Fr off n sg ret_addr_0 # rest) cap arg)
             (St p4 sw4 (Fr off n (partition_array n) ret_addr_4 # rest) c4 arg4)"
      by blast
    from step_4[OF md, where cap=c4 and rest=rest] pe
    obtain c5 where c5: "c4 \<le> c5" and
      s5: "reaches cmp (St p4 sw4 (Fr off n (partition_array n) ret_addr_4 # rest) c4 arg4) (St p' sw' rest c5 arg')"
      using reaches_step by blast
    from reaches_trans[OF s4 s5] c4 c5 show ?thesis
      by (meson order_trans)
  qed
qed

lemma quarters_sim:
  assumes "\<not> n \<le> 7" "sort_quarters cmp p sw arg off (partition_array n) = Some (p4, sw4, arg4)"
    "length rest < cap"
  shows "\<exists>cap1\<ge>cap. reaches cmp (St p sw (Fr off n sg ret_addr_0 # rest) cap arg)
           (St p4 sw4 (Fr off n (partition_array n) ret_addr_4 # rest) cap1 arg4)"
  by (rule quarters_chain[OF run_sim assms])

lemma xsort_loop_iter: "xsort_iter cmp k st = Some st' \<Longrightarrow> xsort_loop cmp st = xsort_loop cmp st'"
proof (induction k arbitrary: st)
  case 0
  then show ?case by simp
next
  case (Suc k)
  from Suc.prems obtain st1 where s1: "xsort_step cmp st = Some st1" and s2: "xsort_iter cmp k st1 = Some st'"
    by (auto split: Option.bind_splits)
  from s1 have "stk st \<noteq> []" by (auto simp: xsort_step_def)
  with s1 have "xsort_loop cmp st = xsort_loop cmp st1"
    by (subst xsort_loop.simps) simp
  with Suc.IH[OF s2] show ?case by simp
qed

lemma xsort_sort_run:
  assumes "sort_run cmp p swap0 arg 0 n = Some (p', sw', arg')"
  shows "xsort cmp swap0 p n arg = Some (p', arg')"
proof -
  have "\<exists>cap1\<ge>128. reaches cmp (xsort_init swap0 p n arg) (St p' sw' [] cap1 arg')"
    unfolding xsort_init_def by (rule run_sim[OF assms]) simp
  then obtain c k where "xsort_iter cmp k (xsort_init swap0 p n arg) = Some (St p' sw' [] c arg')"
    unfolding reaches_def by blast
  from xsort_loop_iter[OF this] show ?thesis
    by (simp add: xsort_def xsort_loop.simps)
qed

section \<open>Every access is in range, for every comparator\<close>

lemma xchg_ctx_eq:
  assumes "i + 1 < length p"
  shows "xchg_ctx cmp p i arg =
     (case cmp (p ! i) (p ! (i + 1)) arg of
        (r, arg1) \<Rightarrow> Some (r > 0, if r > 0 then p[i := p ! (i + 1), i + 1 := p ! i] else p, arg1))"
  using assms
  by (auto simp: xchg_ctx_def cmp_at_def rd_def wr_def Let_def split: prod.splits)

text \<open>The first \<open>N\<close> cells are rearranged, the others are untouched.\<close>

definition same_run :: "nat \<Rightarrow> 'a list \<Rightarrow> 'a list \<Rightarrow> bool" where
  "same_run N p p1 = (length p1 = length p \<and> drop N p1 = drop N p
     \<and> mset (take N p1) = mset (take N p))"

lemma same_run_refl: "same_run N p p"
  by (simp add: same_run_def)

lemma same_run_trans: "same_run N p p1 \<Longrightarrow> same_run N p1 p2 \<Longrightarrow> same_run N p p2"
  by (simp add: same_run_def)

lemma same_run_swap:
  assumes "i + 1 < N" "N \<le> length p"
  shows "same_run N p (p[i := p ! (i + 1), i + 1 := p ! i])"
proof -
  have "mset ((take N p)[i := take N p ! (i + 1), i + 1 := take N p ! i]) = mset (take N p)"
    using assms by (intro mset_swap) auto
  with assms show ?thesis
    by (simp add: same_run_def take_update_swap)
qed

lemma xchg_ctx_run:
  assumes "i + 1 < N" "N \<le> length p"
  shows "\<exists>res p1 arg1. xchg_ctx cmp p i arg = Some (res, p1, arg1) \<and> same_run N p p1"
proof -
  obtain r arg1 where c: "cmp (p ! i) (p ! (i + 1)) arg = (r, arg1)" by (cases "cmp (p ! i) (p ! (i + 1)) arg")
  from assms have "i + 1 < length p" by simp
  from xchg_ctx_eq[OF this, of cmp arg] c same_run_swap[OF assms] same_run_refl[of N p]
  show ?thesis by auto
qed

lemma oddeven_sweep_run:
  assumes "pair + 1 < N" "N \<le> length seg"
  shows "\<exists>seg1 itr1 arg1. oddeven_sweep cmp seg pair itr arg = Some (seg1, itr1, arg1) \<and> same_run N seg seg1"
  using assms
proof (induction pair arbitrary: seg itr arg rule: less_induct)
  case (less pair)
  from xchg_ctx_run[OF less.prems, of cmp arg] obtain res s1 a1 where
    x: "xchg_ctx cmp seg pair arg = Some (res, s1, a1)" and r: "same_run N seg s1" by blast
  show ?case
  proof (cases "2 \<le> pair")
    case True
    from r less.prems have "pair - 2 + 1 < N" "N \<le> length s1" by (auto simp: same_run_def)
    from less.IH[OF _ this, of "itr OR of_bool res" a1] True obtain s2 i2 a2 where
      "oddeven_sweep cmp s1 (pair - 2) (itr OR of_bool res) a1 = Some (s2, i2, a2)" "same_run N s1 s2"
      by auto
    with x r True show ?thesis
      by (subst oddeven_sweep.simps) (auto intro: same_run_trans)
  next
    case False
    with x r show ?thesis
      by (subst oddeven_sweep.simps) auto
  qed
qed

lemma oddeven_loop_run:
  assumes "elem + 2 < N" "N \<le> length seg"
  shows "\<exists>seg1 arg1. oddeven_loop cmp seg elem z itr n arg = Some (seg1, arg1) \<and> same_run N seg seg1"
  using assms
proof (induction n arbitrary: seg z itr arg rule: less_induct)
  case (less n)
  from less.prems have "elem + of_bool (\<not> z) + 1 < N" by simp
  from oddeven_sweep_run[OF this less.prems(2), of cmp itr arg] obtain s1 i1 a1 where
    x: "oddeven_sweep cmp seg (elem + of_bool (\<not> z)) itr arg = Some (s1, i1, a1)" and r: "same_run N seg s1"
    by blast
  show ?case
  proof (cases "i1 \<noteq> 0 \<and> n - 1 \<noteq> 0")
    case True
    from r less.prems have "N \<le> length s1" by (simp add: same_run_def)
    from less.IH[OF _ less.prems(1) this, of "n - 1" "\<not> z" "i1 - 1" a1] True obtain s2 a2 where
      "oddeven_loop cmp s1 elem (\<not> z) (i1 - 1) (n - 1) a1 = Some (s2, a2)" "same_run N s1 s2"
      by auto
    with x r True show ?thesis
      by (subst oddeven_loop.simps) (auto intro: same_run_trans)
  next
    case False
    with x r show ?thesis
      by (subst oddeven_loop.simps) auto
  qed
qed

lemma oddeven_sort_ctx_run:
  assumes "n \<le> length seg"
  shows "\<exists>seg1 arg1. oddeven_sort_ctx cmp seg n arg = Some (seg1, arg1) \<and> same_run n seg seg1"
proof -
  consider "n = 0 \<or> n = 1" | "n = 2" | "n = 3" | "4 \<le> n" by linarith
  then show ?thesis
  proof cases
    case 1
    then show ?thesis by (auto simp: oddeven_sort_ctx_def same_run_refl)
  next
    case 2
    with assms xchg_ctx_run[of 0 n seg cmp arg] show ?thesis
      by (auto simp: oddeven_sort_ctx_def)
  next
    case 3
    with assms xchg_ctx_run[of 0 n seg cmp arg] obtain r1 s1 a1 where
      x1: "xchg_ctx cmp seg 0 arg = Some (r1, s1, a1)" and e1: "same_run n seg s1" by auto
    with 3 assms xchg_ctx_run[of 1 n s1 cmp a1] obtain r2 s2 a2 where
      x2: "xchg_ctx cmp s1 (Suc 0) a1 = Some (r2, s2, a2)" and e2: "same_run n s1 s2"
      by (auto simp: same_run_def)
    with 3 assms e1 xchg_ctx_run[of 0 n s2 cmp a2] obtain r3 s3 a3 where
      x3: "xchg_ctx cmp s2 0 a2 = Some (r3, s3, a3)" and e3: "same_run n s2 s3"
      by (auto simp: same_run_def)
    from e1 e2 e3 have "same_run n seg s2" "same_run n seg s3"
      by (blast intro: same_run_trans)+
    with 3 x1 x2 x3 show ?thesis
      by (cases r2) (simp_all add: oddeven_sort_ctx_def)
  next
    case 4
    with assms oddeven_loop_run[of "n - 3" n seg cmp True 1 n arg] show ?thesis
      by (auto simp: oddeven_sort_ctx_def)
  qed
qed


lemma rotate_eq:
  assumes "l + r \<le> length d" "l \<le> length sw"
  shows "rotate d sw l r = Some (take r (drop l d) @ take l d @ drop (l + r) d, take l d @ drop l sw)"
  using assms by (simp add: rotate_def block_copy_def add.commute)

lemma rotate_blocks:
  assumes "length A = l" "length B = r" "l \<le> length sw"
  shows "\<exists>sw1. rotate (A @ B @ T) sw l r = Some (B @ A @ T, sw1) \<and> length sw1 = length sw"
  using assms by (simp add: rotate_eq)

lemma rotate_quarters_blocks:
  assumes "length A = q1 sg" "length B = q2 sg" "length C = q3 sg" "length D = q4 sg"
    "rh sg = q3 sg + q4 sg" "q1 sg + q2 sg + rh sg \<le> length sw"
  shows "\<exists>sw1. rotate_quarters (A @ B @ C @ D @ T) sw sg = Some (D @ C @ B @ A @ T, sw1)
           \<and> length sw1 = length sw"
proof -
  from assms obtain s1 where
    r1: "rotate (A @ (B @ C @ D) @ T) sw (q1 sg) (q2 sg + rh sg) = Some ((B @ C @ D) @ A @ T, s1)"
    and l1: "length s1 = length sw"
    using rotate_blocks[of A "q1 sg" "B @ C @ D" "q2 sg + rh sg" sw T] by auto
  from assms l1 obtain s2 where
    r2: "rotate (B @ (C @ D) @ A @ T) s1 (q2 sg) (rh sg) = Some ((C @ D) @ B @ A @ T, s2)"
    and l2: "length s2 = length sw"
    using rotate_blocks[of B "q2 sg" "C @ D" "rh sg" s1 "A @ T"] by auto
  from assms l2 obtain s3 where
    r3: "rotate (C @ D @ B @ A @ T) s2 (q3 sg) (q4 sg) = Some (D @ C @ B @ A @ T, s3)"
    and l3: "length s3 = length sw"
    using rotate_blocks[of C "q3 sg" D "q4 sg" s2 "B @ A @ T"] by auto
  from r1 r2 r3 l3 show ?thesis
    by (simp add: rotate_quarters_def)
qed

lemma cmp_at_total: "i < length p \<Longrightarrow> j < length p \<Longrightarrow> cmp_at cmp p i j arg = Some (cmp (p ! i) (p ! j) arg)"
  by (simp add: cmp_at_def rd_def)

lemma idx_pred_pos: "0 < n \<Longrightarrow> idx_pred n = Some (n - 1)"
  by (simp add: idx_pred_def)

lemma already_ordered_total:
  assumes "8 \<le> n" "n \<le> length d"
  shows "\<exists>b arg1. already_ordered cmp d (partition_array n) arg = Some (b, arg1)"
proof -
  define g where "g = partition_array n"
  have b: "0 < q1 g" "q1 g < length d" "0 < lh g" "lh g < length d" "lh g + q3 g < length d"
    using assms by (simp_all add: g_def partition_array_def Let_def)
  then show ?thesis
    unfolding g_def[symmetric]
    by (auto simp: already_ordered_def idx_pred_pos cmp_at_total split: prod.splits)
qed

lemma fully_reversed_total:
  assumes "8 \<le> n" "n \<le> length d"
  shows "\<exists>b arg1. fully_reversed cmp d n (partition_array n) arg = Some (b, arg1)"
proof -
  define g where "g = partition_array n"
  have b: "0 < q1 g" "q1 g < length d" "0 < lh g" "lh g < length d" "lh g + q3 g < length d"
    "0 < length d" "0 < n"
    using assms by (auto simp add: g_def partition_array_def Let_def)
  with assms(2) show ?thesis
    unfolding g_def[symmetric]
    by (auto simp: fully_reversed_def idx_pred_pos cmp_at_total split: prod.splits)
qed


lemma partition_array_sum:
  "lh (partition_array n) = q1 (partition_array n) + q2 (partition_array n)"
  "rh (partition_array n) = q3 (partition_array n) + q4 (partition_array n)"
  "lh (partition_array n) + rh (partition_array n) = n"
  by (simp_all add: partition_array_def Let_def half_split half_join)

lemma merge_quarters_total:
  assumes "8 \<le> n" "n \<le> length d" "n \<le> length sw"
  shows "\<exists>d1 sw1 arg1. merge_quarters cmp d sw (partition_array n) arg = Some (d1, sw1, arg1)
           \<and> length d1 = length d \<and> drop n d1 = drop n d \<and> length sw1 = length sw"
proof -
  define g where "g = partition_array n"
  have g: "lh g = q1 g + q2 g" "rh g = q3 g + q4 g" "lh g + rh g = n"
    unfolding g_def by (rule partition_array_sum)+
  have o: "1 \<le> q1 g" "q1 g \<le> q2 g" "1 \<le> q3 g" "q3 g \<le> q4 g" "1 \<le> lh g" "lh g \<le> rh g"
    using partition_array_ge8[OF assms(1)] by (simp_all add: g_def)
  from g assms have "q1 g + q2 g \<le> length d" "q1 g + q2 g \<le> length sw" by simp_all
  from parity_merge_ctx_total[OF o(1,2) this, of cmp arg] obtain sw1 a1 where
    m1: "parity_merge_ctx cmp d sw (q1 g) (q2 g) arg = Some (sw1, a1)" and l1: "length sw1 = length sw"
    by blast
  from g assms l1 have "q3 g + q4 g \<le> length (drop (lh g) d)" "q3 g + q4 g \<le> length (drop (lh g) sw1)"
    by simp_all
  from parity_merge_ctx_total[OF o(3,4) this, of cmp a1] obtain t a2 where
    m2: "parity_merge_ctx cmp (drop (lh g) d) (drop (lh g) sw1) (q3 g) (q4 g) a1 = Some (t, a2)"
    and l2: "length t = length (drop (lh g) sw1)"
    by blast
  have l2': "length (take (lh g) sw1 @ t) = length sw" using l1 l2 g assms by simp
  with g assms have "lh g + rh g \<le> length (take (lh g) sw1 @ t)" "lh g + rh g \<le> length d" by simp_all
  from parity_merge_ctx_total[OF o(5,6) this, of cmp a2] obtain d1 a3 where
    m3: "parity_merge_ctx cmp (take (lh g) sw1 @ t) d (lh g) (rh g) a2 = Some (d1, a3)"
    and l3: "length d1 = length d" "drop (lh g + rh g) d1 = drop (lh g + rh g) d"
    by blast
  from m1 m2 m3 l3 l2' g show ?thesis
    unfolding g_def[symmetric] by (simp add: merge_quarters_def)
qed

lemma rotate_quarters_total:
  assumes "8 \<le> n" "n \<le> length d" "n \<le> length sw"
  shows "\<exists>d1 sw1. rotate_quarters d sw (partition_array n) = Some (d1, sw1)
           \<and> length d1 = length d \<and> drop n d1 = drop n d \<and> length sw1 = length sw"
proof -
  define g where "g = partition_array n"
  have g: "lh g = q1 g + q2 g" "rh g = q3 g + q4 g" "lh g + rh g = n"
    unfolding g_def by (rule partition_array_sum)+
  define A where "A = take (q1 g) d"
  define B where "B = take (q2 g) (drop (q1 g) d)"
  define C where "C = take (q3 g) (drop (lh g) d)"
  define D where "D = take (q4 g) (drop (lh g + q3 g) d)"
  define T where "T = drop n d"
  have len: "length A = q1 g" "length B = q2 g" "length C = q3 g" "length D = q4 g"
    using g assms by (simp_all add: A_def B_def C_def D_def)
  have "A @ B @ C @ D @ T = take (q1 g) d @ take (q2 g) (drop (q1 g) d) @ take (q3 g) (drop (q1 g + q2 g) d)
      @ take (q4 g) (drop (q1 g + q2 g + q3 g) d) @ drop (q1 g + q2 g + q3 g + q4 g) d"
    using g by (simp add: A_def B_def C_def D_def T_def add.assoc)
  also have "\<dots> = d"
    by (metis append_take_drop_id drop_drop add.commute)
  finally have d: "d = A @ B @ C @ D @ T" by simp
  from g assms have "q1 g + q2 g + rh g \<le> length sw" by simp
  from rotate_quarters_blocks[OF len g(2) this, of T] obtain sw1 where
    "rotate_quarters d sw g = Some (D @ C @ B @ A @ T, sw1)" "length sw1 = length sw"
    unfolding d by blast
  moreover have "length d = length (A @ B @ C @ D @ T)" by (subst d) simp
  then have "length (D @ C @ B @ A @ T) = length d" by simp
  moreover have "drop n (D @ C @ B @ A @ T) = T" using len g by simp
  then have "drop n (D @ C @ B @ A @ T) = drop n d" by (simp add: T_def)
  ultimately show ?thesis unfolding g_def by blast
qed

lemma merge_decision_total:
  assumes "8 \<le> n" "n \<le> length d" "n \<le> length sw"
  shows "\<exists>d1 sw1 arg1. merge_decision cmp d sw n (partition_array n) arg = Some (d1, sw1, arg1)
           \<and> length d1 = length d \<and> drop n d1 = drop n d \<and> length sw1 = length sw"
proof -
  from already_ordered_total[OF assms(1,2), of cmp arg] obtain b1 a1 where
    ao: "already_ordered cmp d (partition_array n) arg = Some (b1, a1)" by blast
  from fully_reversed_total[OF assms(1,2), of cmp a1] obtain b2 a2 where
    fr: "fully_reversed cmp d n (partition_array n) a1 = Some (b2, a2)" by blast
  from rotate_quarters_total[OF assms] obtain d2 s2 where
    rq: "rotate_quarters d sw (partition_array n) = Some (d2, s2)"
      "length d2 = length d" "drop n d2 = drop n d" "length s2 = length sw" by blast
  from merge_quarters_total[OF assms, of cmp a2] obtain d3 s3 a3 where
    mq: "merge_quarters cmp d sw (partition_array n) a2 = Some (d3, s3, a3)"
      "length d3 = length d" "drop n d3 = drop n d" "length s3 = length sw" by blast
  show ?thesis
    by (cases b1; cases b2) (simp_all add: merge_decision_def ao fr rq mq)
qed

lemma sort_run_total:
  assumes "off + n \<le> length p" "n \<le> length sw"
  shows "\<exists>p1 sw1 arg1. sort_run cmp p sw arg off n = Some (p1, sw1, arg1)
           \<and> length p1 = length p \<and> take off p1 = take off p \<and> drop (off + n) p1 = drop (off + n) p
           \<and> length sw1 = length sw"
  using assms
proof (induction n arbitrary: p sw arg off rule: less_induct)
  case (less n)
  show ?case
  proof (cases "n \<le> 7")
    case True
    from less.prems have "n \<le> length (drop off p)" by simp
    from oddeven_sort_ctx_run[OF this, of cmp arg] obtain v a1 where
      o: "oddeven_sort_ctx cmp (drop off p) n arg = Some (v, a1)" and r: "same_run n (drop off p) v" by blast
    from r less.prems have "length (take off p @ v) = length p" "take off (take off p @ v) = take off p"
      "drop (off + n) (take off p @ v) = drop (off + n) p"
      by (simp_all add: same_run_def add.commute)
    with o True show ?thesis by (simp add: sort_run_base)
  next
    case False
    define g where "g = partition_array n"
    have g: "lh g = q1 g + q2 g" "rh g = q3 g + q4 g" "lh g + rh g = n"
      unfolding g_def by (rule partition_array_sum)+
    have lt: "q1 g < n" "q2 g < n" "q3 g < n" "q4 g < n"
      using False by (simp_all add: g_def partition_array_def Let_def)
    from less.prems g have "off + q1 g \<le> length p" "q1 g \<le> length sw" by simp_all
    from less.IH[OF lt(1) this, of arg] obtain p1 s1 a1 where
      r1: "sort_run cmp p sw arg off (q1 g) = Some (p1, s1, a1)" and
      f1: "length p1 = length p" "take off p1 = take off p" "drop (off + q1 g) p1 = drop (off + q1 g) p"
        "length s1 = length sw" by blast
    from less.prems g f1 have "off + q1 g + q2 g \<le> length p1" "q2 g \<le> length s1" by simp_all
    from less.IH[OF lt(2) this, of a1] obtain p2 s2 a2 where
      r2: "sort_run cmp p1 s1 a1 (off + q1 g) (q2 g) = Some (p2, s2, a2)" and
      f2: "length p2 = length p1" "take (off + q1 g) p2 = take (off + q1 g) p1"
        "drop (off + q1 g + q2 g) p2 = drop (off + q1 g + q2 g) p1"
        "length s2 = length s1" by blast
    from less.prems g f1 f2 have "off + lh g + q3 g \<le> length p2" "q3 g \<le> length s2" by simp_all
    from less.IH[OF lt(3) this, of a2] obtain p3 s3 a3 where
      r3: "sort_run cmp p2 s2 a2 (off + lh g) (q3 g) = Some (p3, s3, a3)" and
      f3: "length p3 = length p2" "take (off + lh g) p3 = take (off + lh g) p2"
        "drop (off + lh g + q3 g) p3 = drop (off + lh g + q3 g) p2"
        "length s3 = length s2" by blast
    from less.prems g f1 f2 f3 have "off + lh g + q3 g + q4 g \<le> length p3" "q4 g \<le> length s3" by simp_all
    from less.IH[OF lt(4) this, of a3] obtain p4 s4 a4 where
      r4: "sort_run cmp p3 s3 a3 (off + lh g + q3 g) (q4 g) = Some (p4, s4, a4)" and
      f4: "length p4 = length p3" "take (off + lh g + q3 g) p4 = take (off + lh g + q3 g) p3"
        "drop (off + lh g + q3 g + q4 g) p4 = drop (off + lh g + q3 g + q4 g) p3"
        "length s4 = length s3" by blast
    have tk: "take off p4 = take off p"
    proof -
      have "take off p4 = take off (take (off + lh g + q3 g) p4)" by (simp add: min_def)
      also have "\<dots> = take off (take (off + lh g + q3 g) p3)" by (simp only: f4)
      also have "\<dots> = take off (take (off + lh g) p3)" by (simp add: min_def)
      also have "\<dots> = take off (take (off + lh g) p2)" by (simp only: f3)
      also have "\<dots> = take off (take (off + q1 g) p2)" by (simp add: min_def)
      also have "\<dots> = take off (take (off + q1 g) p1)" by (simp only: f2)
      also have "\<dots> = take off p" by (simp add: min_def f1)
      finally show ?thesis .
    qed
    have dr: "drop (off + n) p4 = drop (off + n) p"
    proof -
      have e: "off + n = off + lh g + q3 g + q4 g" using g by simp
      have "drop (off + n) p4 = drop (off + lh g + q3 g + q4 g) p3" unfolding e by (rule f4)
      also have "\<dots> = drop (q4 g) (drop (off + lh g + q3 g) p3)" by (simp add: add.commute)
      also have "\<dots> = drop (q4 g) (drop (off + lh g + q3 g) p2)" by (simp only: f3)
      also have "\<dots> = drop (q3 g + q4 g) (drop (off + q1 g + q2 g) p2)" using g by (simp add: add.commute add.left_commute)
      also have "\<dots> = drop (q3 g + q4 g) (drop (off + q1 g + q2 g) p1)" by (simp only: f2)
      also have "\<dots> = drop (q2 g + q3 g + q4 g) (drop (off + q1 g) p1)" by (simp add: add.commute add.left_commute)
      also have "\<dots> = drop (q2 g + q3 g + q4 g) (drop (off + q1 g) p)" by (simp only: f1)
      also have "\<dots> = drop (off + n) p" using g by (simp add: add.commute add.left_commute)
      finally show ?thesis .
    qed
    have len: "length p4 = length p" "length s4 = length sw" using f1 f2 f3 f4 by simp_all
    have "8 \<le> n" using False by simp
    moreover have "n \<le> length (drop off p4)" "n \<le> length s4" using len less.prems by simp_all
    ultimately obtain v s5 a5 where
      md: "merge_decision cmp (drop off p4) s4 n g a4 = Some (v, s5, a5)" and
      f5: "length v = length (drop off p4)" "drop n v = drop n (drop off p4)" "length s5 = length s4"
      using merge_decision_total[of n "drop off p4" s4 cmp a4] unfolding g_def by blast
    have "sort_run cmp p sw arg off n = Some (take off p4 @ v, s5, a5)"
      using False r1 r2 r3 r4 md by (simp add: sort_run_split g_def[symmetric])
    moreover have "length (take off p4 @ v) = length p" using f5 len less.prems by simp
    moreover have "take off (take off p4 @ v) = take off p" using tk len less.prems by simp
    moreover have "drop (off + n) (take off p4 @ v) = drop (off + n) p"
      using f5 dr len less.prems by (simp add: add.commute)
    ultimately show ?thesis using f5 len by simp
  qed
qed


section \<open>Consistent weak orderings, sortedness and stability\<close>

text \<open>
  A three-way comparison function is a consistent weak ordering when exchanging the
  arguments flips the sign of the result and "not after" is transitive.
\<close>

definition weak_ordering :: "('a \<Rightarrow> 'a \<Rightarrow> int) \<Rightarrow> bool" where
  "weak_ordering f = ((\<forall>a b. (0 < f a b) = (f b a < 0))
     \<and> (\<forall>a b c. f a b \<le> 0 \<longrightarrow> f b c \<le> 0 \<longrightarrow> f a c \<le> 0))"

text \<open>The comparator answers as \<open>f\<close> does, whatever the context holds.\<close>

definition answers :: "('a \<Rightarrow> 'a \<Rightarrow> int) \<Rightarrow> ('a, 'c) cmp_ctx_fn_t \<Rightarrow> bool" where
  "answers f cmp = (\<forall>a b arg. fst (cmp a b arg) = f a b)"

lemma answers_pure: "answers f (pure_cmp f)"
  by (simp add: answers_def pure_cmp_def)

lemma answers_counted: "answers f cmp \<Longrightarrow> answers f (counted cmp)"
  by (auto simp: answers_def counted_def split: prod.splits) (metis fst_conv)

lemma wo_flip: "weak_ordering f \<Longrightarrow> (0 < f a b) = (f b a < 0)"
  by (simp add: weak_ordering_def)

lemma wo_trans: "weak_ordering f \<Longrightarrow> f a b \<le> 0 \<Longrightarrow> f b c \<le> 0 \<Longrightarrow> f a c \<le> 0"
  unfolding weak_ordering_def by blast

lemma wo_refl: "weak_ordering f \<Longrightarrow> f a a = 0"
  using wo_flip[of f a a] by force

lemma wo_total: "weak_ordering f \<Longrightarrow> 0 < f a b \<Longrightarrow> f b a \<le> 0"
  using wo_flip[of f a b] by simp

lemma wo_eq_sym: "weak_ordering f \<Longrightarrow> f a b = 0 \<Longrightarrow> f b a = 0"
  using wo_flip[of f a b] wo_flip[of f b a] by force

lemma wo_gt_le: "weak_ordering f \<Longrightarrow> 0 < f a b \<Longrightarrow> f c b \<le> 0 \<Longrightarrow> 0 < f a c"
  using wo_trans[of f a c b] by force

lemma wo_le_gt: "weak_ordering f \<Longrightarrow> f a b \<le> 0 \<Longrightarrow> 0 < f a c \<Longrightarrow> 0 < f b c"
  using wo_trans[of f a b c] by force

lemma wo_gt_trans: "weak_ordering f \<Longrightarrow> 0 < f a b \<Longrightarrow> 0 < f b c \<Longrightarrow> 0 < f a c"
  using wo_gt_le[of f a b c] wo_total[of f b c] by blast

text \<open>
  \<open>ys\<close> holds the elements of \<open>xs\<close>, and the elements the comparator considers equal
  to any given \<open>k\<close> stand in \<open>ys\<close> in the order they have in \<open>xs\<close>.
\<close>

definition stable_perm :: "('a \<Rightarrow> 'a \<Rightarrow> int) \<Rightarrow> 'a list \<Rightarrow> 'a list \<Rightarrow> bool" where
  "stable_perm f xs ys = (mset ys = mset xs
     \<and> (\<forall>k. filter (\<lambda>x. f k x = 0) ys = filter (\<lambda>x. f k x = 0) xs))"

lemma stable_perm_refl: "stable_perm f xs xs"
  by (simp add: stable_perm_def)

lemma stable_perm_trans: "stable_perm f xs ys \<Longrightarrow> stable_perm f ys zs \<Longrightarrow> stable_perm f xs zs"
  by (simp add: stable_perm_def)

lemma stable_perm_length: "stable_perm f xs ys \<Longrightarrow> length ys = length xs"
  unfolding stable_perm_def by (metis size_mset)

lemma stable_perm_append:
  "stable_perm f xs ys \<Longrightarrow> stable_perm f us vs \<Longrightarrow> stable_perm f (xs @ us) (ys @ vs)"
  by (simp add: stable_perm_def)

text \<open>Sorted: every element is not after any later one.\<close>

definition sorted_by :: "('a \<Rightarrow> 'a \<Rightarrow> int) \<Rightarrow> 'a list \<Rightarrow> bool" where
  "sorted_by f xs = sorted_wrt (\<lambda>a b. f a b \<le> 0) xs"

lemma sorted_by_adjacent:
  assumes "weak_ordering f"
  shows "sorted_by f xs = (\<forall>i. Suc i < length xs \<longrightarrow> f (xs ! i) (xs ! Suc i) \<le> 0)"
proof -
  have "transp (\<lambda>a b. f a b \<le> 0)"
    using wo_trans[OF assms] by (auto intro: transpI)
  then show ?thesis
    unfolding sorted_by_def by (rule sorted_wrt_iff_nth_Suc_transp)
qed

section \<open>Compare-exchange networks\<close>

text \<open>
  What a compare-exchange at cell \<open>i\<close> does to the list when the comparator answers as
  \<open>f\<close>, and a sequence of compare-exchanges at the cells of a schedule.
\<close>

definition cx :: "('a \<Rightarrow> 'a \<Rightarrow> int) \<Rightarrow> 'a list \<Rightarrow> nat \<Rightarrow> 'a list" where
  "cx f p i = (if 0 < f (p ! i) (p ! (i + 1)) then p[i := p ! (i + 1), i + 1 := p ! i] else p)"

fun cxs :: "('a \<Rightarrow> 'a \<Rightarrow> int) \<Rightarrow> 'a list \<Rightarrow> nat list \<Rightarrow> 'a list" where
  "cxs f p [] = p"
| "cxs f p (i # js) = cxs f (cx f p i) js"

lemma cxs_append: "cxs f p (is @ js) = cxs f (cxs f p is) js"
  by (induction "is" arbitrary: p) simp_all

lemma length_cx: "length (cx f p i) = length p"
  by (simp add: cx_def)

lemma length_cxs: "length (cxs f p js) = length p"
  by (induction js arbitrary: p) (simp_all add: length_cx)

lemma xchg_ctx_cx:
  assumes "answers f cmp" "i + 1 < length p" "xchg_ctx cmp p i arg = Some (res, p1, arg1)"
  shows "p1 = cx f p i \<and> res = (0 < f (p ! i) (p ! (i + 1)))"
proof -
  obtain r a where c: "cmp (p ! i) (p ! (i + 1)) arg = (r, a)" by (cases "cmp (p ! i) (p ! (i + 1)) arg")
  with assms(1) have "r = f (p ! i) (p ! (i + 1))" by (metis answers_def fst_conv)
  with assms(3) c xchg_ctx_eq[OF assms(2), of cmp arg] show ?thesis
    by (auto simp: cx_def)
qed

lemma swap_conv:
  assumes "i + 1 < length p"
  shows "p[i := b, i + 1 := a] = take i p @ b # a # drop (i + 2) p"
proof -
  from assms have "p[i := b] = take i p @ b # drop (Suc i) p"
    by (simp add: upd_conv_take_nth_drop)
  moreover from assms have "drop (Suc i) p = p ! (i + 1) # drop (i + 2) p"
    by (simp add: Cons_nth_drop_Suc)
  ultimately show ?thesis using assms
    by (simp add: list_update_append)
qed

lemma pair_conv:
  assumes "i + 1 < length p"
  shows "p = take i p @ p ! i # p ! (i + 1) # drop (i + 2) p"
  using swap_conv[OF assms, of "p ! i" "p ! (i + 1)"] by simp

lemma stable_perm_cx:
  assumes "weak_ordering f" "i + 1 < length p"
  shows "stable_perm f p (cx f p i)"
proof (cases "0 < f (p ! i) (p ! (i + 1))")
  case False
  then show ?thesis by (simp add: cx_def stable_perm_refl)
next
  case True
  let ?a = "p ! i" and ?b = "p ! (i + 1)"
  have c: "cx f p i = take i p @ ?b # ?a # drop (i + 2) p"
    using True swap_conv[OF assms(2)] by (simp add: cx_def)
  have "\<not> (f k ?a = 0 \<and> f k ?b = 0)" for k
  proof
    assume e: "f k ?a = 0 \<and> f k ?b = 0"
    then have "f ?a k = 0" using wo_eq_sym[OF assms(1)] by blast
    with e have "f ?a ?b \<le> 0" using wo_trans[OF assms(1), of ?a k ?b] by simp
    with True show False by simp
  qed
  then have "filter (\<lambda>x. f k x = 0) (take i p @ ?b # ?a # drop (i + 2) p)
      = filter (\<lambda>x. f k x = 0) (take i p @ ?a # ?b # drop (i + 2) p)" for k
    by auto
  moreover have "mset (take i p @ ?b # ?a # drop (i + 2) p) = mset (take i p @ ?a # ?b # drop (i + 2) p)"
    by simp
  ultimately have "stable_perm f (take i p @ ?a # ?b # drop (i + 2) p) (take i p @ ?b # ?a # drop (i + 2) p)"
    by (simp add: stable_perm_def)
  with c pair_conv[OF assms(2)] show ?thesis by simp
qed

lemma stable_perm_cxs:
  assumes "weak_ordering f" "\<forall>i \<in> set js. i + 1 < length p"
  shows "stable_perm f p (cxs f p js)"
  using assms(2)
proof (induction js arbitrary: p)
  case Nil
  then show ?case by (simp add: stable_perm_refl)
next
  case (Cons i js)
  from Cons.prems have "stable_perm f p (cx f p i)" using stable_perm_cx[OF assms(1)] by simp
  moreover from Cons.prems have "stable_perm f (cx f p i) (cxs f (cx f p i) js)"
    by (intro Cons.IH) (simp add: length_cx)
  ultimately show ?case using stable_perm_trans by fastforce
qed

lemma take_cx: "i + 1 < N \<Longrightarrow> take N (cx f p i) = cx f (take N p) i"
  by (simp add: cx_def take_update_swap)

lemma take_cxs: "\<forall>i \<in> set js. i + 1 < N \<Longrightarrow> take N (cxs f p js) = cxs f (take N p) js"
  by (induction js arbitrary: p) (simp_all add: take_cx)

text \<open>The zero-one principle: a threshold test commutes with every compare-exchange.\<close>

definition bool_cmp :: "bool \<Rightarrow> bool \<Rightarrow> int" where
  "bool_cmp a b = of_bool a - of_bool b"

lemma map_cx:
  assumes "weak_ordering f" "i + 1 < length p"
  shows "map (\<lambda>x. 0 < f x t) (cx f p i) = cx bool_cmp (map (\<lambda>x. 0 < f x t) p) i"
proof (cases "0 < f (p ! i) (p ! (i + 1))")
  case False
  then have "f (p ! i) (p ! (i + 1)) \<le> 0" by simp
  then have "0 < f (p ! i) t \<longrightarrow> 0 < f (p ! (i + 1)) t"
    using wo_le_gt[OF assms(1)] by blast
  with False assms(2) show ?thesis
    by (auto simp: cx_def bool_cmp_def)
next
  case True
  let ?g = "\<lambda>x. 0 < f x t"
  have imp: "?g (p ! (i + 1)) \<longrightarrow> ?g (p ! i)"
    using True wo_gt_trans[OF assms(1)] by blast
  have l: "map ?g (cx f p i) = (map ?g p)[i := ?g (p ! (i + 1)), i + 1 := ?g (p ! i)]"
    using True by (simp add: cx_def map_update)
  show ?thesis
  proof (cases "?g (p ! i) \<and> \<not> ?g (p ! (i + 1))")
    case s: True
    with assms(2) l show ?thesis by (simp add: cx_def bool_cmp_def)
  next
    case s: False
    with imp have e: "?g (p ! (i + 1)) = ?g (p ! i)" by blast
    have "(map ?g p)[i := map ?g p ! i, i + 1 := map ?g p ! (i + 1)] = map ?g p"
      by simp
    with assms(2) e have "(map ?g p)[i := ?g (p ! (i + 1)), i + 1 := ?g (p ! i)] = map ?g p"
      by simp
    with l have l2: "map ?g (cx f p i) = map ?g p" by simp
    have "\<not> 0 < bool_cmp (map ?g p ! i) (map ?g p ! (i + 1))"
      using e assms(2) by (simp add: bool_cmp_def)
    then have "cx bool_cmp (map ?g p) i = map ?g p"
      by (simp only: cx_def if_False)
    with l2 show ?thesis by simp
  qed
qed

lemma map_cxs:
  assumes "weak_ordering f" "\<forall>i \<in> set js. i + 1 < length p"
  shows "map (\<lambda>x. 0 < f x t) (cxs f p js) = cxs bool_cmp (map (\<lambda>x. 0 < f x t) p) js"
  using assms(2)
proof (induction js arbitrary: p)
  case Nil
  then show ?case by simp
next
  case (Cons i js)
  from Cons.prems have "map (\<lambda>x. 0 < f x t) (cxs f (cx f p i) js)
      = cxs bool_cmp (map (\<lambda>x. 0 < f x t) (cx f p i)) js"
    by (intro Cons.IH) (simp add: length_cx)
  with Cons.prems map_cx[OF assms(1), of i p t] show ?case by simp
qed

text \<open>A network that sorts every list of truth values of a length sorts every list of that length.\<close>

lemma zero_one:
  assumes wo: "weak_ordering f" and idx: "\<forall>i \<in> set js. i + 1 < length p"
    and bs: "\<forall>bs \<in> set (List.n_lists (length p) [False, True]). sorted_by bool_cmp (cxs bool_cmp bs js)"
  shows "sorted_by f (cxs f p js)"
proof -
  have "f (cxs f p js ! i) (cxs f p js ! Suc i) \<le> 0" if i: "Suc i < length (cxs f p js)" for i
  proof (rule ccontr)
    assume "\<not> f (cxs f p js ! i) (cxs f p js ! Suc i) \<le> 0"
    then have gt: "0 < f (cxs f p js ! i) (cxs f p js ! Suc i)" by simp
    define t where "t = cxs f p js ! Suc i"
    let ?m = "map (\<lambda>x. 0 < f x t) p"
    have "?m \<in> set (List.n_lists (length p) [False, True])"
      by (auto simp: set_n_lists)
    with bs have "sorted_by bool_cmp (cxs bool_cmp ?m js)" by blast
    then have s: "sorted_by bool_cmp (map (\<lambda>x. 0 < f x t) (cxs f p js))"
      using map_cxs[OF wo idx, of t] by simp
    have "sorted_wrt (\<lambda>a b. bool_cmp a b \<le> 0) (map (\<lambda>x. 0 < f x t) (cxs f p js))"
      using s by (simp add: sorted_by_def)
    then have "bool_cmp (map (\<lambda>x. 0 < f x t) (cxs f p js) ! i) (map (\<lambda>x. 0 < f x t) (cxs f p js) ! Suc i) \<le> 0"
      using i sorted_wrt_nth_less[of "\<lambda>a b. bool_cmp a b \<le> 0" "map (\<lambda>x. 0 < f x t) (cxs f p js)" i "Suc i"]
      by simp
    with i gt show False
      by (simp add: bool_cmp_def t_def wo_refl[OF wo])
  qed
  then show ?thesis by (simp add: sorted_by_adjacent[OF wo])
qed


section \<open>The base-case sorter as a network\<close>

text \<open>The cells one sweep visits, and the cells \<open>k\<close> alternating sweeps visit.\<close>

fun sweep_idx :: "nat \<Rightarrow> nat list" where
  "sweep_idx pair = pair # (if 2 \<le> pair then sweep_idx (pair - 2) else [])"

declare sweep_idx.simps [simp del]

fun sweeps_idx :: "nat \<Rightarrow> bool \<Rightarrow> nat \<Rightarrow> nat list" where
  "sweeps_idx elem z 0 = []"
| "sweeps_idx elem z (Suc k) = sweep_idx (elem + of_bool (\<not> z)) @ sweeps_idx elem (\<not> z) k"

definition oe_schedule :: "nat \<Rightarrow> nat list" where
  "oe_schedule n =
     (if n \<le> 1 then [] else if n = 2 then [0] else if n = 3 then [0, 1, 0]
      else sweeps_idx (n - 3) True n)"

text \<open>The network of a schedule sorts each of the listed lists of truth values.\<close>

fun sorts_all :: "nat list \<Rightarrow> bool list list \<Rightarrow> bool" where
  "sorts_all js [] = True"
| "sorts_all js (bs # bss) = (sorted_by bool_cmp (cxs bool_cmp bs js) \<and> sorts_all js bss)"

lemma sorts_all_iff: "sorts_all js bss = (\<forall>bs \<in> set bss. sorted_by bool_cmp (cxs bool_cmp bs js))"
  by (induction bss) simp_all

lemma oe_schedule_bools:
  "sorts_all (oe_schedule 2) (List.n_lists 2 [False, True])"
  "sorts_all (oe_schedule 3) (List.n_lists 3 [False, True])"
  "sorts_all (oe_schedule 4) (List.n_lists 4 [False, True])"
  "sorts_all (oe_schedule 5) (List.n_lists 5 [False, True])"
  "sorts_all (oe_schedule 6) (List.n_lists 6 [False, True])"
  "sorts_all (oe_schedule 7) (List.n_lists 7 [False, True])"
  by code_simp+

lemma set_sweep_idx: "set (sweep_idx pair) = {i. i \<le> pair \<and> even (pair - i)}"
proof (induction pair rule: less_induct)
  case (less pair)
  show ?case
  proof (cases "2 \<le> pair")
    case True
    then have "set (sweep_idx pair) = insert pair {i. i \<le> pair - 2 \<and> even (pair - 2 - i)}"
      using less[of "pair - 2"] by (subst sweep_idx.simps) simp
    also have "\<dots> = {i. i \<le> pair \<and> even (pair - i)}"
    proof (intro set_eqI iffI)
      fix i assume "i \<in> insert pair {i. i \<le> pair - 2 \<and> even (pair - 2 - i)}"
      with True show "i \<in> {i. i \<le> pair \<and> even (pair - i)}" by auto
    next
      fix i assume a: "i \<in> {i. i \<le> pair \<and> even (pair - i)}"
      show "i \<in> insert pair {i. i \<le> pair - 2 \<and> even (pair - 2 - i)}"
      proof (cases "i = pair")
        case False
        with a have "i < pair" "even (pair - i)" by auto
        then have "i \<le> pair - 2" by (cases "pair - i = 1") auto
        with a True show ?thesis by auto
      qed simp
    qed
    finally show ?thesis .
  next
    case False
    then have "pair = 0 \<or> pair = 1" by auto
    then show ?thesis
      by (subst sweep_idx.simps) (auto simp: le_Suc_eq)
  qed
qed

lemma sweep_idx_le: "i \<in> set (sweep_idx pair) \<Longrightarrow> i \<le> pair"
  by (simp add: set_sweep_idx)

lemma sweeps_idx_bound: "i \<in> set (sweeps_idx elem z k) \<Longrightarrow> i \<le> elem + 1"
proof (induction k arbitrary: z)
  case 0
  then show ?case by simp
next
  case (Suc k)
  from Suc.prems have "i \<in> set (sweep_idx (elem + of_bool (\<not> z))) \<or> i \<in> set (sweeps_idx elem (\<not> z) k)"
    by simp
  then show ?case
  proof
    assume "i \<in> set (sweep_idx (elem + of_bool (\<not> z)))"
    then have "i \<le> elem + of_bool (\<not> z)" by (rule sweep_idx_le)
    then show ?thesis by (cases z) simp_all
  next
    assume "i \<in> set (sweeps_idx elem (\<not> z) k)"
    then show ?thesis by (rule Suc.IH)
  qed
qed

lemma oe_schedule_bound: "i \<in> set (oe_schedule n) \<Longrightarrow> i + 1 < n"
  using sweeps_idx_bound[of i "n - 3" True n]
  by (auto simp: oe_schedule_def split: if_splits)


lemma nth_cx_other: "k \<noteq> i \<Longrightarrow> k \<noteq> i + 1 \<Longrightarrow> cx f p i ! k = p ! k"
  by (simp add: cx_def)

lemma nth_cxs_above: "\<forall>j \<in> set js. j + 1 < k \<Longrightarrow> cxs f p js ! k = p ! k"
  by (induction js arbitrary: p) (simp_all add: nth_cx_other)

lemma cx_ordered:
  assumes "weak_ordering f" "i + 1 < length p"
  shows "f (cx f p i ! i) (cx f p i ! (i + 1)) \<le> 0"
  using assms wo_total[OF assms(1), of "p ! i" "p ! (i + 1)"]
  by (auto simp: cx_def)

lemma cx_id: "f (p ! i) (p ! (i + 1)) \<le> 0 \<Longrightarrow> cx f p i = p"
  by (simp add: cx_def)

lemma cxs_id: "\<forall>i \<in> set js. f (p ! i) (p ! (i + 1)) \<le> 0 \<Longrightarrow> cxs f p js = p"
  by (induction js) (simp_all add: cx_id)

lemma sweep_ordered:
  assumes "weak_ordering f" "pair + 1 < length p" "i \<in> set (sweep_idx pair)"
  shows "f (cxs f p (sweep_idx pair) ! i) (cxs f p (sweep_idx pair) ! (i + 1)) \<le> 0"
  using assms(2,3)
proof (induction pair arbitrary: p rule: less_induct)
  case (less pair)
  let ?p1 = "cx f p pair"
  show ?case
  proof (cases "2 \<le> pair")
    case True
    then have r: "cxs f p (sweep_idx pair) = cxs f ?p1 (sweep_idx (pair - 2))"
      by (subst sweep_idx.simps) simp
    from True less.prems(2) have "i = pair \<or> i \<in> set (sweep_idx (pair - 2))"
      by (subst (asm) sweep_idx.simps) simp
    then show ?thesis
    proof
      assume i: "i = pair"
      have "\<forall>j \<in> set (sweep_idx (pair - 2)). j + 1 < pair" "\<forall>j \<in> set (sweep_idx (pair - 2)). j + 1 < pair + 1"
        using True sweep_idx_le[of _ "pair - 2"] by fastforce+
      then have "cxs f ?p1 (sweep_idx (pair - 2)) ! pair = ?p1 ! pair"
        "cxs f ?p1 (sweep_idx (pair - 2)) ! (pair + 1) = ?p1 ! (pair + 1)"
        by (simp_all add: nth_cxs_above)
      with r i cx_ordered[OF assms(1) less.prems(1)] show ?thesis by simp
    next
      assume "i \<in> set (sweep_idx (pair - 2))"
      moreover from True less.prems(1) have "pair - 2 < pair" "pair - 2 + 1 < length ?p1"
        by (simp_all add: length_cx)
      ultimately show ?thesis using r less.IH[of "pair - 2" ?p1] by simp
    qed
  next
    case False
    then have "cxs f p (sweep_idx pair) = ?p1" "set (sweep_idx pair) = {pair}"
      by (subst sweep_idx.simps, simp)+
    with less.prems cx_ordered[OF assms(1) less.prems(1)] show ?thesis by simp
  qed
qed

lemma itr_or_zero: "(itr OR of_bool res = (0 :: 8 word)) = (itr = 0 \<and> \<not> res)"
  by (cases res) (simp_all add: or_eq_0_iff)

lemma itr_or_bit: "itr = 0 \<or> itr = 1 \<Longrightarrow> itr OR of_bool res = (0 :: 8 word) \<or> itr OR of_bool res = 1"
  by (cases res) auto

lemma oddeven_sweep_net:
  assumes "answers f cmp" "pair + 1 < length seg"
    "oddeven_sweep cmp seg pair itr arg = Some (seg1, itr1, arg1)"
  shows "seg1 = cxs f seg (sweep_idx pair)
    \<and> (itr1 = 0 \<longrightarrow> itr = 0 \<and> (\<forall>i \<in> set (sweep_idx pair). f (seg ! i) (seg ! (i + 1)) \<le> 0))
    \<and> (itr = 0 \<or> itr = 1 \<longrightarrow> itr1 = 0 \<or> itr1 = 1)"
  using assms(2,3)
proof (induction pair arbitrary: seg itr arg rule: less_induct)
  case (less pair)
  from less.prems(2) obtain res s1 a1 where
    x: "xchg_ctx cmp seg pair arg = Some (res, s1, a1)"
    by (subst (asm) oddeven_sweep.simps) (auto split: Option.bind_splits)
  from xchg_ctx_cx[OF assms(1) less.prems(1) x] have
    s1: "s1 = cx f seg pair" and res: "res = (0 < f (seg ! pair) (seg ! (pair + 1)))" by simp_all
  show ?case
  proof (cases "2 \<le> pair")
    case True
    with less.prems(2) x have
      rc: "oddeven_sweep cmp s1 (pair - 2) (itr OR of_bool res) a1 = Some (seg1, itr1, arg1)"
      by (subst (asm) oddeven_sweep.simps) simp
    from True less.prems(1) s1 have "pair - 2 < pair" "pair - 2 + 1 < length s1"
      by (simp_all add: length_cx)
    from less.IH[OF this rc] have
      ih1: "seg1 = cxs f s1 (sweep_idx (pair - 2))" and
      ih2: "itr1 = 0 \<longrightarrow> itr OR of_bool res = 0 \<and> (\<forall>i \<in> set (sweep_idx (pair - 2)). f (s1 ! i) (s1 ! (i + 1)) \<le> 0)" and
      ih3: "itr OR of_bool res = 0 \<or> itr OR of_bool res = 1 \<longrightarrow> itr1 = 0 \<or> itr1 = 1"
      by simp_all
    have idx: "sweep_idx pair = pair # sweep_idx (pair - 2)"
      using True by (subst sweep_idx.simps) simp
    have "seg1 = cxs f seg (sweep_idx pair)" using ih1 s1 idx by simp
    moreover have "itr = 0 \<and> (\<forall>i \<in> set (sweep_idx pair). f (seg ! i) (seg ! (i + 1)) \<le> 0)" if "itr1 = 0"
    proof -
      from that ih2 have z: "itr = 0" "\<not> res" and o: "\<forall>i \<in> set (sweep_idx (pair - 2)). f (s1 ! i) (s1 ! (i + 1)) \<le> 0"
        by (simp_all add: itr_or_zero)
      from z res have "f (seg ! pair) (seg ! (pair + 1)) \<le> 0" by simp
      moreover from this s1 have "s1 = seg" by (simp add: cx_id)
      ultimately show ?thesis using z o idx by simp
    qed
    moreover have "itr = 0 \<or> itr = 1 \<longrightarrow> itr1 = 0 \<or> itr1 = 1"
      using ih3 itr_or_bit[of itr res] by blast
    ultimately show ?thesis by blast
  next
    case False
    with less.prems(2) x have e: "seg1 = s1" "itr1 = itr OR of_bool res"
      by (subst (asm) oddeven_sweep.simps, simp)+
    have idx: "sweep_idx pair = [pair]"
      using False by (subst sweep_idx.simps) simp
    have "seg1 = cxs f seg (sweep_idx pair)" using e s1 idx by simp
    moreover have "itr1 = 0 \<longrightarrow> itr = 0 \<and> (\<forall>i \<in> set (sweep_idx pair). f (seg ! i) (seg ! (i + 1)) \<le> 0)"
      using e res idx by (simp add: itr_or_zero)
    moreover have "itr = 0 \<or> itr = 1 \<longrightarrow> itr1 = 0 \<or> itr1 = 1"
      using e itr_or_bit[of itr res] by blast
    ultimately show ?thesis by blast
  qed
qed


lemma sweep_idx_cover:
  assumes "i \<le> elem + 1"
  shows "i \<in> set (sweep_idx (elem + of_bool z)) \<or> i \<in> set (sweep_idx (elem + of_bool (\<not> z)))"
proof -
  have "i \<in> set (sweep_idx elem) \<or> i \<in> set (sweep_idx (elem + 1))"
  proof (cases "i \<le> elem")
    case True
    then have "even (elem - i) \<or> even (elem + 1 - i)" by (simp add: Suc_diff_le) blast
    with True show ?thesis by (auto simp: set_sweep_idx)
  next
    case False
    with assms have "i = elem + 1" by simp
    then show ?thesis by (simp add: set_sweep_idx)
  qed
  then show ?thesis by (cases z) auto
qed

lemma oddeven_loop_net:
  assumes "answers f cmp" "weak_ordering f" "elem + 2 < length seg"
    "oddeven_loop cmp seg elem z itr n arg = Some (seg1, arg1)"
    "itr = 1 \<or> (itr = 0 \<and> (\<forall>i \<in> set (sweep_idx (elem + of_bool z)). f (seg ! i) (seg ! (i + 1)) \<le> 0))"
    "1 \<le> n"
  shows "seg1 = cxs f seg (sweeps_idx elem z n)"
  using assms(3-6)
proof (induction n arbitrary: seg z itr arg rule: less_induct)
  case (less n)
  from less.prems(4) obtain m where n: "n = Suc m" by (cases n) auto
  from less.prems(2) obtain s1 i1 a1 where
    sw: "oddeven_sweep cmp seg (elem + of_bool (\<not> z)) itr arg = Some (s1, i1, a1)"
    by (subst (asm) oddeven_loop.simps) (auto simp: Let_def split: Option.bind_splits)
  from less.prems(1) have b: "elem + of_bool (\<not> z) + 1 < length seg" by simp
  from oddeven_sweep_net[OF assms(1) b sw] have
    s1: "s1 = cxs f seg (sweep_idx (elem + of_bool (\<not> z)))" and
    z1: "i1 = 0 \<longrightarrow> itr = 0 \<and> (\<forall>i \<in> set (sweep_idx (elem + of_bool (\<not> z))). f (seg ! i) (seg ! (i + 1)) \<le> 0)" and
    b1: "itr = 0 \<or> itr = 1 \<longrightarrow> i1 = 0 \<or> i1 = 1"
    by simp_all
  have goal: "cxs f seg (sweeps_idx elem z n) = cxs f s1 (sweeps_idx elem (\<not> z) m)"
    by (simp add: n cxs_append s1)
  show ?case
  proof (cases "i1 \<noteq> 0 \<and> m \<noteq> 0")
    case True
    with less.prems(2) sw n have
      rc: "oddeven_loop cmp s1 elem (\<not> z) (i1 - 1) m a1 = Some (seg1, arg1)"
      by (subst (asm) oddeven_loop.simps) (simp add: Let_def)
    from True b1 less.prems(3) have "i1 - 1 = 0" by auto
    moreover have "\<forall>i \<in> set (sweep_idx (elem + of_bool (\<not> z))). f (s1 ! i) (s1 ! (i + 1)) \<le> 0"
      unfolding s1 using sweep_ordered[OF assms(2) b] by blast
    ultimately have inv: "i1 - 1 = 1 \<or> (i1 - 1 = 0 \<and> (\<forall>i \<in> set (sweep_idx (elem + of_bool (\<not> z))). f (s1 ! i) (s1 ! (i + 1)) \<le> 0))"
      by simp
    have "elem + 2 < length s1" using less.prems(1) by (simp add: s1 length_cxs)
    from less.IH[OF _ this rc inv] True n have "seg1 = cxs f s1 (sweeps_idx elem (\<not> z) m)" by simp
    with goal show ?thesis by simp
  next
    case False
    with less.prems(2) sw n have e: "seg1 = s1"
      by (subst (asm) oddeven_loop.simps) (auto simp: Let_def)
    show ?thesis
    proof (cases "i1 = 0")
      case True
      with z1 have i0: "itr = 0" and o1: "\<forall>i \<in> set (sweep_idx (elem + of_bool (\<not> z))). f (seg ! i) (seg ! (i + 1)) \<le> 0"
        by simp_all
      from i0 less.prems(3) have o2: "\<forall>i \<in> set (sweep_idx (elem + of_bool z)). f (seg ! i) (seg ! (i + 1)) \<le> 0"
        by simp
      have all: "f (seg ! i) (seg ! (i + 1)) \<le> 0" if "i \<le> elem + 1" for i
        using sweep_idx_cover[OF that, of z] o1 o2 by blast
      have "s1 = seg" unfolding s1 using o1 by (rule cxs_id)
      moreover have "cxs f seg (sweeps_idx elem (\<not> z) m) = seg"
        using all sweeps_idx_bound by (intro cxs_id) blast
      ultimately show ?thesis using goal e by simp
    next
      case nz: False
      with False have "m = 0" by simp
      with goal e show ?thesis by simp
    qed
  qed
qed

lemma cx_idem:
  assumes "weak_ordering f" "i + 1 < length p"
  shows "cx f (cx f p i) i = cx f p i"
  using cx_ordered[OF assms] by (rule cx_id)

lemma oddeven_sort_ctx_net:
  assumes "answers f cmp" "weak_ordering f" "n \<le> length seg"
    "oddeven_sort_ctx cmp seg n arg = Some (seg1, arg1)"
  shows "seg1 = cxs f seg (oe_schedule n)"
proof -
  consider "n = 0 \<or> n = 1" | "n = 2" | "n = 3" | "4 \<le> n" by linarith
  then show ?thesis
  proof cases
    case 1
    with assms(4) show ?thesis by (auto simp: oddeven_sort_ctx_def oe_schedule_def)
  next
    case 2
    with assms(4) obtain r where x: "xchg_ctx cmp seg 0 arg = Some (r, seg1, arg1)"
      by (auto simp: oddeven_sort_ctx_def split: Option.bind_splits)
    from 2 assms(3) have "0 + 1 < length seg" by simp
    from xchg_ctx_cx[OF assms(1) this x] 2 show ?thesis by (simp add: oe_schedule_def)
  next
    case 3
    with assms(3) have b: "0 + 1 < length seg" "1 + 1 < length seg" by simp_all
    from 3 assms(4) obtain r1 s1 a1 r2 s2 a2 where
      x1: "xchg_ctx cmp seg 0 arg = Some (r1, s1, a1)" and
      x2: "xchg_ctx cmp s1 1 a1 = Some (r2, s2, a2)" and
      x3: "(if \<not> r2 then Some (s2, a2) else do {
              (_, seg3, arg3) \<leftarrow> xchg_ctx cmp s2 0 a2;
              Some (seg3, arg3)
            }) = Some (seg1, arg1)"
      by (auto simp: oddeven_sort_ctx_def split: Option.bind_splits)
    from xchg_ctx_cx[OF assms(1) b(1) x1] have s1: "s1 = cx f seg 0" by simp
    from b s1 have "1 + 1 < length s1" by (simp add: length_cx)
    from xchg_ctx_cx[OF assms(1) this x2] have
      s2: "s2 = cx f s1 1" and r2: "r2 = (0 < f (s1 ! 1) (s1 ! (1 + 1)))" by simp_all
    have l2: "0 + 1 < length s2" using b s1 s2 by (simp add: length_cx)
    have "seg1 = cx f s2 0"
    proof (cases r2)
      case True
      with x3 obtain r3 where "xchg_ctx cmp s2 0 a2 = Some (r3, seg1, arg1)"
        by (auto split: Option.bind_splits)
      from xchg_ctx_cx[OF assms(1) l2 this] show ?thesis by simp
    next
      case False
      with x3 have "seg1 = s2" by simp
      moreover from False r2 s2 have "s2 = s1" by (simp add: cx_id)
      moreover have "cx f s1 0 = s1" unfolding s1 using b(1) by (rule cx_idem[OF assms(2)])
      ultimately show ?thesis by simp
    qed
    with s1 s2 3 show ?thesis by (simp add: oe_schedule_def)
  next
    case 4
    with assms(4) have l: "oddeven_loop cmp seg (n - 3) True 1 n arg = Some (seg1, arg1)"
      by (simp add: oddeven_sort_ctx_def)
    from 4 assms(3) have "n - 3 + 2 < length seg" "1 \<le> n" by simp_all
    from oddeven_loop_net[OF assms(1,2) this(1) l _ this(2)] 4 show ?thesis
      by (simp add: oe_schedule_def)
  qed
qed


lemma drop_cx: "i + 1 < N \<Longrightarrow> drop N (cx f p i) = drop N p"
  by (simp add: cx_def)

lemma drop_cxs: "\<forall>i \<in> set js. i + 1 < N \<Longrightarrow> drop N (cxs f p js) = drop N p"
  by (induction js arbitrary: p) (simp_all add: drop_cx)

lemma sorted_by_short: "length xs \<le> 1 \<Longrightarrow> sorted_by f xs"
  by (cases xs) (simp_all add: sorted_by_def)

lemma oe_schedule_sorts:
  assumes "weak_ordering f" "length X \<le> 7"
  shows "sorted_by f (cxs f X (oe_schedule (length X)))"
proof (cases "length X \<le> 1")
  case True
  then show ?thesis by (simp add: sorted_by_short length_cxs)
next
  case False
  with assms(2) have "length X \<in> {2, 3, 4, 5, 6, 7}" by auto
  then have "sorts_all (oe_schedule (length X)) (List.n_lists (length X) [False, True])"
    using oe_schedule_bools by auto
  then have "\<forall>bs \<in> set (List.n_lists (length X) [False, True]).
      sorted_by bool_cmp (cxs bool_cmp bs (oe_schedule (length X)))"
    by (simp add: sorts_all_iff)
  moreover have "\<forall>i \<in> set (oe_schedule (length X)). i + 1 < length X"
    using oe_schedule_bound by blast
  ultimately show ?thesis using zero_one[OF assms(1)] by blast
qed

text \<open>
  The base-case sorter on a run \<open>X\<close> of at most 7 elements followed by \<open>B\<close>: the run
  comes back sorted, with equal elements in their original order, and \<open>B\<close> is untouched.
\<close>

lemma oddeven_sorts:
  assumes "answers f cmp" "weak_ordering f" "length X \<le> 7"
    "oddeven_sort_ctx cmp (X @ B) (length X) arg = Some (seg1, arg1)"
  shows "\<exists>Y. seg1 = Y @ B \<and> stable_perm f X Y \<and> sorted_by f Y"
proof -
  let ?js = "oe_schedule (length X)"
  have b: "\<forall>i \<in> set ?js. i + 1 < length X" using oe_schedule_bound by blast
  have "length X \<le> length (X @ B)" by simp
  from oddeven_sort_ctx_net[OF assms(1,2) this assms(4)] have s: "seg1 = cxs f (X @ B) ?js" .
  have "take (length X) seg1 = cxs f X ?js" unfolding s using b by (simp add: take_cxs)
  moreover have "drop (length X) seg1 = B" unfolding s using b by (simp add: drop_cxs)
  ultimately have "seg1 = cxs f X ?js @ B" by (metis append_take_drop_id)
  moreover have "stable_perm f X (cxs f X ?js)" using b by (intro stable_perm_cxs[OF assms(2)])
  moreover have "sorted_by f (cxs f X ?js)" using assms(2,3) by (rule oe_schedule_sorts)
  ultimately show ?thesis by blast
qed

section \<open>The stable merge\<close>

text \<open>The merge the two fronts of the parity merger compute: on a tie the left run goes first.\<close>

fun smerge :: "('a \<Rightarrow> 'a \<Rightarrow> int) \<Rightarrow> 'a list \<Rightarrow> 'a list \<Rightarrow> 'a list" where
  "smerge f [] ys = ys"
| "smerge f (x # xs) [] = x # xs"
| "smerge f (x # xs) (y # ys) =
     (if f x y \<le> 0 then x # smerge f xs (y # ys) else y # smerge f (x # xs) ys)"

lemma smerge_Nil2: "smerge f xs [] = xs"
  by (cases xs) simp_all

lemma mset_smerge: "mset (smerge f xs ys) = mset xs + mset ys"
  by (induction f xs ys rule: smerge.induct) simp_all

lemma length_smerge: "length (smerge f xs ys) = length xs + length ys"
  by (induction f xs ys rule: smerge.induct) simp_all

lemma set_smerge: "set (smerge f xs ys) = set xs \<union> set ys"
  by (induction f xs ys rule: smerge.induct) auto

lemma sorted_by_Cons: "sorted_by f (x # xs) = ((\<forall>y \<in> set xs. f x y \<le> 0) \<and> sorted_by f xs)"
  by (simp add: sorted_by_def)

lemma sorted_smerge:
  "weak_ordering f \<Longrightarrow> sorted_by f xs \<Longrightarrow> sorted_by f ys \<Longrightarrow> sorted_by f (smerge f xs ys)"
proof (induction f xs ys rule: smerge.induct)
  case (3 f x xs y ys)
  note wo = "3.prems"(1)
  from "3.prems" have sx: "\<forall>z \<in> set xs. f x z \<le> 0" "sorted_by f xs"
    and sy: "\<forall>z \<in> set ys. f y z \<le> 0" "sorted_by f ys"
    by (simp_all add: sorted_by_Cons)
  show ?case
  proof (cases "f x y \<le> 0")
    case True
    have "f x z \<le> 0" if "z \<in> set ys" for z
      using that sy True wo_trans[OF wo, of x y z] by auto
    moreover have "sorted_by f (smerge f xs (y # ys))"
      using True "3.IH"(1) "3.prems" sx by simp
    ultimately show ?thesis using True sx
      by (auto simp: sorted_by_Cons set_smerge)
  next
    case False
    then have yx: "f y x \<le> 0" using wo_total[OF wo, of x y] by simp
    have "f y z \<le> 0" if "z \<in> set xs" for z
      using that sx yx wo_trans[OF wo, of y x z] by auto
    moreover have "sorted_by f (smerge f (x # xs) ys)"
      using False "3.IH"(2) "3.prems" sy by simp
    ultimately show ?thesis using False yx sy
      by (auto simp: sorted_by_Cons set_smerge)
  qed
qed simp_all

lemma filter_smerge:
  "weak_ordering f \<Longrightarrow> sorted_by f xs \<Longrightarrow> sorted_by f ys \<Longrightarrow>
    filter (\<lambda>x. f k x = 0) (smerge f xs ys) = filter (\<lambda>x. f k x = 0) xs @ filter (\<lambda>x. f k x = 0) ys"
proof (induction f xs ys rule: smerge.induct)
  case (3 f x xs y ys)
  note wo = "3.prems"(1)
  from "3.prems" have sx: "\<forall>z \<in> set xs. f x z \<le> 0" "sorted_by f xs"
    and sy: "\<forall>z \<in> set ys. f y z \<le> 0" "sorted_by f ys"
    by (simp_all add: sorted_by_Cons)
  show ?case
  proof (cases "f x y \<le> 0")
    case True
    with "3.IH"(1) "3.prems" sx show ?thesis by simp
  next
    case False
    then have gt: "0 < f x y" by simp
    from False "3.IH"(2) "3.prems" sy have ih:
      "filter (\<lambda>x. f k x = 0) (smerge f (x # xs) ys)
       = filter (\<lambda>x. f k x = 0) (x # xs) @ filter (\<lambda>x. f k x = 0) ys"
      by simp
    show ?thesis
    proof (cases "f k y = 0")
      case ky: False
      with False ih show ?thesis by simp
    next
      case ky: True
      have "f k z \<noteq> 0" if "z \<in> set (x # xs)" for z
      proof
        assume kz: "f k z = 0"
        have "f x z \<le> 0" using that sx wo_refl[OF wo, of x] by auto
        moreover have "f z k \<le> 0" using kz wo_eq_sym[OF wo] by force
        ultimately have "f x k \<le> 0" using wo_trans[OF wo] by blast
        with ky have "f x y \<le> 0" using wo_trans[OF wo, of x k y] by simp
        with gt show False by simp
      qed
      then have "filter (\<lambda>x. f k x = 0) (x # xs) = []" by (simp add: filter_empty_conv)
      with False ky ih show ?thesis by simp
    qed
  qed
qed simp_all

lemma smerge_single_left: "\<forall>y \<in> set ys. 0 < f a y \<Longrightarrow> smerge f [a] ys = ys @ [a]"
  by (induction ys) auto

lemma smerge_single_right: "\<forall>x \<in> set xs. f x b \<le> 0 \<Longrightarrow> smerge f xs [b] = xs @ [b]"
  by (induction xs) auto

lemma smerge_snoc_left:
  "\<forall>y \<in> set ys. 0 < f a y \<Longrightarrow> smerge f (xs @ [a]) ys = smerge f xs ys @ [a]"
proof (induction f xs ys rule: smerge.induct)
  case (1 f ys)
  then show ?case by (simp add: smerge_single_left)
next
  case (2 f x xs)
  then show ?case by simp
next
  case (3 f x xs y ys)
  then show ?case by simp
qed

lemma smerge_snoc_right:
  "\<forall>x \<in> set xs. f x b \<le> 0 \<Longrightarrow> smerge f xs (ys @ [b]) = smerge f xs ys @ [b]"
proof (induction f xs ys rule: smerge.induct)
  case (1 f ys)
  then show ?case by simp
next
  case (2 f x xs)
  then show ?case using smerge_single_right[of "x # xs" f b] by simp
next
  case (3 f x xs y ys)
  then show ?case by simp
qed

text \<open>
  The forward front after taking \<open>a\<close> elements of the left run and \<open>b\<close> of the right
  run, and the backward front with \<open>u\<close> elements of the left run and \<open>v\<close> of the right
  run still before it.
\<close>

definition fwd_ok :: "('a \<Rightarrow> 'a \<Rightarrow> int) \<Rightarrow> 'a list \<Rightarrow> 'a list \<Rightarrow> nat \<Rightarrow> nat \<Rightarrow> bool" where
  "fwd_ok f X Y a b = (a \<le> length X \<and> b \<le> length Y
     \<and> drop (a + b) (smerge f X Y) = smerge f (drop a X) (drop b Y))"

definition bwd_ok :: "('a \<Rightarrow> 'a \<Rightarrow> int) \<Rightarrow> 'a list \<Rightarrow> 'a list \<Rightarrow> nat \<Rightarrow> nat \<Rightarrow> bool" where
  "bwd_ok f X Y u v = (u \<le> length X \<and> v \<le> length Y
     \<and> take (u + v) (smerge f X Y) = smerge f (take u X) (take v Y))"

lemma fwd_ok_start: "fwd_ok f X Y 0 0"
  by (simp add: fwd_ok_def)

lemma bwd_ok_start: "bwd_ok f X Y (length X) (length Y)"
  by (simp add: bwd_ok_def length_smerge)

lemma fwd_step:
  assumes "fwd_ok f X Y a b" "a < length X" "b < length Y"
  shows "smerge f X Y ! (a + b) = (if f (X ! a) (Y ! b) \<le> 0 then X ! a else Y ! b)"
    and "f (X ! a) (Y ! b) \<le> 0 \<Longrightarrow> fwd_ok f X Y (Suc a) b"
    and "\<not> f (X ! a) (Y ! b) \<le> 0 \<Longrightarrow> fwd_ok f X Y a (Suc b)"
proof -
  let ?M = "smerge f X Y"
  have dx: "drop a X = X ! a # drop (Suc a) X" and dy: "drop b Y = Y ! b # drop (Suc b) Y"
    using assms(2,3) by (simp_all add: Cons_nth_drop_Suc)
  from assms(1) have d: "drop (a + b) ?M = smerge f (X ! a # drop (Suc a) X) (Y ! b # drop (Suc b) Y)"
    by (simp add: fwd_ok_def dx[symmetric] dy[symmetric])
  have lt: "a + b < length ?M" using assms(2,3) by (simp add: length_smerge)
  have hd: "?M ! (a + b) = hd (drop (a + b) ?M)" using lt by (simp add: hd_drop_conv_nth)
  have tl: "drop (Suc (a + b)) ?M = tl (drop (a + b) ?M)" by (simp add: drop_Suc tl_drop)
  show "?M ! (a + b) = (if f (X ! a) (Y ! b) \<le> 0 then X ! a else Y ! b)"
    unfolding hd d by simp
  show "fwd_ok f X Y (Suc a) b" if "f (X ! a) (Y ! b) \<le> 0"
  proof -
    from that d have "drop (a + b) ?M = X ! a # smerge f (drop (Suc a) X) (Y ! b # drop (Suc b) Y)"
      by simp
    with tl have "drop (Suc (a + b)) ?M = smerge f (drop (Suc a) X) (Y ! b # drop (Suc b) Y)"
      by simp
    then have "drop (Suc a + b) ?M = smerge f (drop (Suc a) X) (drop b Y)"
      by (simp only: dy[symmetric] add_Suc)
    with assms show ?thesis by (simp add: fwd_ok_def)
  qed
  show "fwd_ok f X Y a (Suc b)" if "\<not> f (X ! a) (Y ! b) \<le> 0"
  proof -
    from that d have "drop (a + b) ?M = Y ! b # smerge f (X ! a # drop (Suc a) X) (drop (Suc b) Y)"
      by simp
    with tl have "drop (Suc (a + b)) ?M = smerge f (X ! a # drop (Suc a) X) (drop (Suc b) Y)"
      by simp
    then have "drop (a + Suc b) ?M = smerge f (drop a X) (drop (Suc b) Y)"
      by (simp only: dx[symmetric] add_Suc_right)
    with assms show ?thesis by (simp add: fwd_ok_def)
  qed
qed

lemma fwd_last:
  assumes "fwd_ok f X Y (length X) 0" "0 < length Y"
  shows "smerge f X Y ! length X = Y ! 0"
proof -
  from assms(1) have "drop (length X) (smerge f X Y) = Y" by (simp add: fwd_ok_def)
  moreover have "length X < length (smerge f X Y)" using assms(2) by (simp add: length_smerge)
  ultimately have "smerge f X Y ! length X = hd Y" by (metis hd_drop_conv_nth)
  with assms(2) show ?thesis by (simp add: hd_conv_nth)
qed

lemma sorted_by_nth:
  assumes "weak_ordering f" "sorted_by f X" "i \<le> j" "j < length X"
  shows "f (X ! i) (X ! j) \<le> 0"
proof (cases "i = j")
  case True
  then show ?thesis by (simp add: wo_refl[OF assms(1)])
next
  case False
  with assms(3) have "i < j" by simp
  from sorted_wrt_nth_less[OF assms(2)[unfolded sorted_by_def] this assms(4)] show ?thesis .
qed

lemma last_take:
  assumes "0 < n" "n \<le> length xs"
  shows "last (take n xs) = xs ! (n - 1)"
proof -
  from assms have "take n xs \<noteq> []" by auto
  then have "last (take n xs) = take n xs ! (length (take n xs) - 1)" by (rule last_conv_nth)
  with assms show ?thesis by simp
qed

lemma bwd_step:
  assumes wo: "weak_ordering f" and sx: "sorted_by f X" and sy: "sorted_by f Y"
    and ok: "bwd_ok f X Y u v" and u: "0 < u" and v: "0 < v"
  shows "smerge f X Y ! (u + v - 1) = (if 0 < f (X ! (u - 1)) (Y ! (v - 1)) then X ! (u - 1) else Y ! (v - 1))"
    and "0 < f (X ! (u - 1)) (Y ! (v - 1)) \<Longrightarrow> bwd_ok f X Y (u - 1) v"
    and "\<not> 0 < f (X ! (u - 1)) (Y ! (v - 1)) \<Longrightarrow> bwd_ok f X Y u (v - 1)"
proof -
  let ?M = "smerge f X Y"
  let ?a = "X ! (u - 1)" and ?b = "Y ! (v - 1)"
  from ok have le: "u \<le> length X" "v \<le> length Y"
    and t: "take (u + v) ?M = smerge f (take u X) (take v Y)"
    by (simp_all add: bwd_ok_def)
  have tx: "take u X = take (u - 1) X @ [?a]" and ty: "take v Y = take (v - 1) Y @ [?b]"
    using u v le by (simp_all add: take_Suc_conv_app_nth[symmetric])
  have lt: "u + v \<le> length ?M" using le by (simp add: length_smerge)
  have nth: "?M ! (u + v - 1) = last (take (u + v) ?M)"
    using lt u by (simp add: last_take)
  have bl: "take (u + v - 1) ?M = butlast (take (u + v) ?M)"
    using lt u by (simp add: butlast_take)
  have big: "take (u + v) ?M = smerge f (take (u - 1) X) (take v Y) @ [?a]" if gt: "0 < f ?a ?b"
  proof -
    have "0 < f ?a y" if "y \<in> set (take v Y)" for y
    proof -
      from that obtain i where "i < v" "y = Y ! i"
        using le by (auto simp: in_set_conv_nth)
      then have "f y ?b \<le> 0" using sorted_by_nth[OF wo sy, of i "v - 1"] v le by simp
      with gt show ?thesis using wo_gt_le[OF wo] by blast
    qed
    then show ?thesis unfolding t by (subst tx) (simp add: smerge_snoc_left)
  qed
  have small: "take (u + v) ?M = smerge f (take u X) (take (v - 1) Y) @ [?b]" if ng: "\<not> 0 < f ?a ?b"
  proof -
    have "f x ?b \<le> 0" if "x \<in> set (take u X)" for x
    proof -
      from that obtain i where "i < u" "x = X ! i"
        using le by (auto simp: in_set_conv_nth)
      then have "f x ?a \<le> 0" using sorted_by_nth[OF wo sx, of i "u - 1"] u le by simp
      with ng show ?thesis using wo_trans[OF wo, of x ?a ?b] by simp
    qed
    then show ?thesis unfolding t by (subst ty) (simp add: smerge_snoc_right)
  qed
  show "?M ! (u + v - 1) = (if 0 < f ?a ?b then ?a else ?b)"
    unfolding nth using big small by simp
  show "bwd_ok f X Y (u - 1) v" if "0 < f ?a ?b"
    using big[OF that] bl le u by (simp add: bwd_ok_def)
  show "bwd_ok f X Y u (v - 1)" if "\<not> 0 < f ?a ?b"
    using small[OF that] bl le v by (simp add: bwd_ok_def)
qed

lemma merge_head_eq:
  assumes "answers f cmp" "merge_head cmp src dst i l r arg = Some (hl, dst1, arg1)"
  shows "l < length src \<and> r < length src \<and> i < length dst
    \<and> hl = (f (src ! l) (src ! r) \<le> 0) \<and> dst1 = dst[i := (if hl then src ! l else src ! r)]"
proof -
  from assms(2) have b: "l < length src" "r < length src"
    by (auto simp: merge_head_def cmp_at_def rd_def split: Option.bind_splits if_splits)
  obtain x a where c: "cmp (src ! l) (src ! r) arg = (x, a)" by (cases "cmp (src ! l) (src ! r) arg")
  with assms(1) have "x = f (src ! l) (src ! r)" by (metis answers_def fst_conv)
  with assms(2) b c show ?thesis
    by (auto simp: merge_head_def cmp_at_def rd_def wr_def split: Option.bind_splits if_splits)
qed

lemma merge_tail_eq:
  assumes "answers f cmp" "merge_tail cmp src dst i l r arg = Some (tk, dst1, arg1)"
  shows "l < length src \<and> r < length src \<and> i < length dst
    \<and> tk = (0 < f (src ! l) (src ! r)) \<and> dst1 = dst[i := (if tk then src ! l else src ! r)]"
proof -
  from assms(2) have b: "l < length src" "r < length src"
    by (auto simp: merge_tail_def cmp_at_def rd_def split: Option.bind_splits if_splits)
  obtain x a where c: "cmp (src ! l) (src ! r) arg = (x, a)" by (cases "cmp (src ! l) (src ! r) arg")
  with assms(1) have "x = f (src ! l) (src ! r)" by (metis answers_def fst_conv)
  with assms(2) b c show ?thesis
    by (auto simp: merge_tail_def cmp_at_def rd_def wr_def split: Option.bind_splits if_splits)
qed


text \<open>
  The state of the parity merger between two steps: both fronts agree with the stable
  merge of the two runs, the destination holds the merge before the forward front and
  from the backward front on, and nothing past the merged elements has changed.
\<close>

definition pm_inv :: "('a \<Rightarrow> 'a \<Rightarrow> int) \<Rightarrow> 'a list \<Rightarrow> 'a list \<Rightarrow> 'a list \<Rightarrow> 'a list
    \<Rightarrow> nat \<Rightarrow> nat \<Rightarrow> nat \<Rightarrow> nat \<Rightarrow> bool" where
  "pm_inv f X Y dst0 dst a b u v =
     (fwd_ok f X Y a b \<and> bwd_ok f X Y u v \<and> length dst = length dst0
      \<and> drop (length X + length Y) dst = drop (length X + length Y) dst0
      \<and> (\<forall>i < a + b. dst ! i = smerge f X Y ! i)
      \<and> (\<forall>i. u + v \<le> i \<and> i < length X + length Y \<longrightarrow> dst ! i = smerge f X Y ! i))"

lemma pm_inv_start:
  "pm_inv f X Y dst0 dst0 0 0 (length X) (length Y)"
  by (auto simp add: pm_inv_def fwd_ok_start bwd_ok_start)

lemma run_nth:
  assumes "X = take L src" "Y = take R (drop L src)" "L + R \<le> length src"
  shows "length X = L" "length Y = R" "a < L \<Longrightarrow> X ! a = src ! a" "b < R \<Longrightarrow> Y ! b = src ! (L + b)"
  using assms by simp_all

lemma pm_head:
  assumes an: "answers f cmp"
    and X: "X = take L src" and Y: "Y = take R (drop L src)" and len: "L + R \<le> length src"
    and inv: "pm_inv f X Y dst0 dst a b u v"
    and ab: "a < L" "b < R" and dis: "a + b < u + v"
    and h: "merge_head cmp src dst (a + b) a (L + b) arg = Some (hl, dst1, arg1)"
  shows "pm_inv f X Y dst0 dst1 (if hl then Suc a else a) (if hl then b else Suc b) u v"
proof -
  note rn = run_nth[OF X Y len]
  let ?M = "smerge f X Y"
  from inv have fw: "fwd_ok f X Y a b" and bw: "bwd_ok f X Y u v"
    and l: "length dst = length dst0"
    and d: "drop (length X + length Y) dst = drop (length X + length Y) dst0"
    and lo: "\<forall>i < a + b. dst ! i = ?M ! i"
    and hi: "\<forall>i. u + v \<le> i \<and> i < length X + length Y \<longrightarrow> dst ! i = ?M ! i"
    by (simp_all add: pm_inv_def)
  from bw have uv: "u \<le> L" "v \<le> R" by (simp_all add: bwd_ok_def rn)
  from merge_head_eq[OF an h] have
    il: "a + b < length dst" and
    hl: "hl = (f (src ! a) (src ! (L + b)) \<le> 0)" and
    d1: "dst1 = dst[a + b := (if hl then src ! a else src ! (L + b))]" by simp_all
  have axb: "a < length X" "b < length Y" using ab rn by simp_all
  from hl ab rn have hl': "hl = (f (X ! a) (Y ! b) \<le> 0)" by simp
  from fwd_step(1)[OF fw axb] hl' ab rn have w: "(if hl then src ! a else src ! (L + b)) = ?M ! (a + b)"
    by simp
  have d1': "dst1 = dst[a + b := ?M ! (a + b)]" using d1 w by simp
  have fw': "fwd_ok f X Y (if hl then Suc a else a) (if hl then b else Suc b)"
    using fwd_step(2,3)[OF fw axb] hl' by auto
  have "length dst1 = length dst0" using d1' l by simp
  moreover have "drop (length X + length Y) dst1 = drop (length X + length Y) dst0"
    using d1' d dis uv rn by simp
  moreover have "\<forall>i < (if hl then Suc a else a) + (if hl then b else Suc b). dst1 ! i = ?M ! i"
  proof (intro allI impI)
    fix i assume "i < (if hl then Suc a else a) + (if hl then b else Suc b)"
    then have "i < a + b \<or> i = a + b" by (auto split: if_splits)
    then show "dst1 ! i = ?M ! i" using d1' lo il by (auto simp: nth_list_update)
  qed
  moreover have "\<forall>i. u + v \<le> i \<and> i < length X + length Y \<longrightarrow> dst1 ! i = ?M ! i"
    using d1' hi dis by (auto simp: nth_list_update)
  ultimately show ?thesis using fw' bw by (simp add: pm_inv_def)
qed

lemma pm_tail:
  assumes an: "answers f cmp" and wo: "weak_ordering f"
    and X: "X = take L src" and Y: "Y = take R (drop L src)" and len: "L + R \<le> length src"
    and sx: "sorted_by f X" and sy: "sorted_by f Y"
    and inv: "pm_inv f X Y dst0 dst a b u v"
    and uv: "0 < u" "0 < v" and dis: "a + b < u + v"
    and t: "merge_tail cmp src dst (u + v - 1) (u - 1) (L + v - 1) arg = Some (tk, dst1, arg1)"
  shows "pm_inv f X Y dst0 dst1 a b (if tk then u - 1 else u) (if tk then v else v - 1)"
proof -
  note rn = run_nth[OF X Y len]
  let ?M = "smerge f X Y"
  from inv have fw: "fwd_ok f X Y a b" and bw: "bwd_ok f X Y u v"
    and l: "length dst = length dst0"
    and d: "drop (length X + length Y) dst = drop (length X + length Y) dst0"
    and lo: "\<forall>i < a + b. dst ! i = ?M ! i"
    and hi: "\<forall>i. u + v \<le> i \<and> i < length X + length Y \<longrightarrow> dst ! i = ?M ! i"
    by (simp_all add: pm_inv_def)
  from bw have le: "u \<le> L" "v \<le> R" by (simp_all add: bwd_ok_def rn)
  from merge_tail_eq[OF an t] have
    il: "u + v - 1 < length dst" and
    tk: "tk = (0 < f (src ! (u - 1)) (src ! (L + v - 1)))" and
    d1: "dst1 = dst[u + v - 1 := (if tk then src ! (u - 1) else src ! (L + v - 1))]" by simp_all
  have e: "X ! (u - 1) = src ! (u - 1)" "Y ! (v - 1) = src ! (L + v - 1)"
    using rn(3)[of "u - 1"] rn(4)[of "v - 1"] uv le by simp_all
  from tk e have tk': "tk = (0 < f (X ! (u - 1)) (Y ! (v - 1)))" by simp
  from bwd_step(1)[OF wo sx sy bw uv] tk' e
  have w: "(if tk then src ! (u - 1) else src ! (L + v - 1)) = ?M ! (u + v - 1)" by simp
  have d1': "dst1 = dst[u + v - 1 := ?M ! (u + v - 1)]" using d1 w by simp
  have bw': "bwd_ok f X Y (if tk then u - 1 else u) (if tk then v else v - 1)"
    using bwd_step(2,3)[OF wo sx sy bw uv] tk' by auto
  have "length dst1 = length dst0" using d1' l by simp
  moreover have "drop (length X + length Y) dst1 = drop (length X + length Y) dst0"
    using d1' d uv le rn by simp
  moreover have "\<forall>i < a + b. dst1 ! i = ?M ! i"
    using d1' lo dis by (auto simp: nth_list_update)
  moreover have "\<forall>i. (if tk then u - 1 else u) + (if tk then v else v - 1) \<le> i \<and> i < length X + length Y
      \<longrightarrow> dst1 ! i = ?M ! i"
  proof (intro allI impI)
    fix i assume a: "(if tk then u - 1 else u) + (if tk then v else v - 1) \<le> i \<and> i < length X + length Y"
    with uv have "u + v \<le> i \<or> i = u + v - 1" by (auto split: if_splits)
    then show "dst1 ! i = ?M ! i" using d1' hi il a by (auto simp: nth_list_update)
  qed
  ultimately show ?thesis using fw bw' by (simp add: pm_inv_def)
qed


lemma parity_loop_SucE:
  assumes "parity_loop cmp src dst (Suc m) fd bd il ir jl jr arg = Some r" "m \<noteq> 0"
  obtains hl d1 g1 tk d2 g2 where
    "merge_head cmp src dst fd il ir arg = Some (hl, d1, g1)"
    "merge_tail cmp src d1 bd jl jr g1 = Some (tk, d2, g2)"
    "parity_loop cmp src d2 m (fd + 1) (bd - 1)
       (if hl then il + 1 else il) (if hl then ir else ir + 1)
       (if tk then jl - 1 else jl) (if tk then jr else jr - 1) g2 = Some r"
  using assms unfolding parity_loop_Suc by (auto split: Option.bind_splits)

lemma parity_loop_inv:
  assumes an: "answers f cmp" and wo: "weak_ordering f"
    and X: "X = take L src" and Y: "Y = take R (drop L src)" and len: "L + R \<le> length src"
    and LR: "L \<le> R"
    and sx: "sorted_by f X" and sy: "sorted_by f Y"
  shows "pm_inv f X Y dst0 dst a b u v \<Longrightarrow> 1 \<le> m \<Longrightarrow> m \<le> u \<Longrightarrow> m \<le> v
    \<Longrightarrow> a + b + m \<le> L + 1 \<Longrightarrow> a + b + 2 * m \<le> u + v
    \<Longrightarrow> parity_loop cmp src dst m (a + b) (u + v - 1) a (L + b) (u - 1) (L + v - 1) arg
          = Some (dst1, ptd1, tpd1, ptl1, ptr1, tpl1, tpr1, arg1)
    \<Longrightarrow> \<exists>a1 b1 u1 v1. ptd1 = a1 + b1 \<and> ptl1 = a1 \<and> ptr1 = L + b1
          \<and> tpd1 = u1 + v1 - 1 \<and> tpl1 = u1 - 1 \<and> tpr1 = L + v1 - 1
          \<and> pm_inv f X Y dst0 dst1 a1 b1 u1 v1
          \<and> a1 + b1 + 1 = a + b + m \<and> u1 + v1 + m = u + v + 1 \<and> 1 \<le> u1 \<and> 1 \<le> v1"
proof (induction m arbitrary: dst a b u v arg)
  case 0
  then show ?case by simp
next
  case (Suc m)
  show ?case
  proof (cases "m = 0")
    case True
    with Suc.prems(7) have e: "dst1 = dst" "ptd1 = a + b" "tpd1 = u + v - 1" "ptl1 = a"
      "ptr1 = L + b" "tpl1 = u - 1" "tpr1 = L + v - 1"
      by (simp_all add: parity_loop_Suc)
    show ?thesis
      apply (rule exI[of _ a], rule exI[of _ b], rule exI[of _ u], rule exI[of _ v])
      using e True Suc.prems(1-6) by simp
  next
    case False
    from parity_loop_SucE[OF Suc.prems(7) False] obtain hl d1 g1 tk d2 g2 where
      h: "merge_head cmp src dst (a + b) a (L + b) arg = Some (hl, d1, g1)" and
      t: "merge_tail cmp src d1 (u + v - 1) (u - 1) (L + v - 1) g1 = Some (tk, d2, g2)" and
      r: "parity_loop cmp src d2 m (a + b + 1) (u + v - 1 - 1)
            (if hl then a + 1 else a) (if hl then L + b else L + b + 1)
            (if tk then u - 1 - 1 else u - 1) (if tk then L + v - 1 else L + v - 1 - 1) g2
          = Some (dst1, ptd1, tpd1, ptl1, ptr1, tpl1, tpr1, arg1)"
      by metis
    from Suc.prems False have ab: "a < L" "b < R" and uv: "0 < u" "0 < v"
      and dis: "a + b < u + v" using LR by simp_all
    define a' where "a' = (if hl then Suc a else a)"
    define b' where "b' = (if hl then b else Suc b)"
    define u' where "u' = (if tk then u - 1 else u)"
    define v' where "v' = (if tk then v else v - 1)"
    from pm_head[OF an X Y len Suc.prems(1) ab dis h]
    have i1: "pm_inv f X Y dst0 d1 a' b' u v" by (simp add: a'_def b'_def)
    have "a' + b' = a + b + 1" by (simp add: a'_def b'_def)
    with Suc.prems False have dis': "a' + b' < u + v" by simp
    from pm_tail[OF an wo X Y len sx sy i1 uv dis' t]
    have i2: "pm_inv f X Y dst0 d2 a' b' u' v'" by (simp add: u'_def v'_def)
    have s: "a' + b' = a + b + 1" "u' + v' + 1 = u + v"
      using uv by (simp_all add: a'_def b'_def u'_def v'_def)
    have c: "a + b + 1 = a' + b'" "u + v - 1 - 1 = u' + v' - 1"
      "(if hl then a + 1 else a) = a'" "(if hl then L + b else L + b + 1) = L + b'"
      "(if tk then u - 1 - 1 else u - 1) = u' - 1" "(if tk then L + v - 1 else L + v - 1 - 1) = L + v' - 1"
      using uv s by (auto simp: a'_def b'_def u'_def v'_def)
    have pre: "1 \<le> m" "m \<le> u'" "m \<le> v'" "a' + b' + m \<le> L + 1" "a' + b' + 2 * m \<le> u' + v'"
      using Suc.prems False s by (auto simp: u'_def v'_def)
    from Suc.IH[OF i2 pre r[unfolded c]] obtain a1 b1 u1 v1 where
      "ptd1 = a1 + b1" "ptl1 = a1" "ptr1 = L + b1"
      "tpd1 = u1 + v1 - 1" "tpl1 = u1 - 1" "tpr1 = L + v1 - 1"
      "pm_inv f X Y dst0 dst1 a1 b1 u1 v1"
      "a1 + b1 + 1 = a' + b' + m" "u1 + v1 + m = u' + v' + 1" "1 \<le> u1" "1 \<le> v1"
      by blast
    with s show ?thesis
      by (intro exI[of _ a1] exI[of _ b1] exI[of _ u1] exI[of _ v1]) simp
  qed
qed


lemma parity_merge_ctxE:
  assumes "parity_merge_ctx cmp src dst L R arg = Some (dst1, arg1)"
  obtains d0 fd0 il0 ir0 g0 d2 fd2 bd2 il2 ir2 jl2 jr2 g2 tk d3 g3 hl where
    "0 < L"
    "(if L < R then do {
        (hl, dst1, arg1) \<leftarrow> merge_head cmp src dst 0 0 L arg;
        Some (dst1, 1, if hl then 1 else 0, if hl then L else L + 1, arg1)
      }
      else Some (dst, 0, 0, L, arg)) = Some (d0, fd0, il0, ir0, g0)"
    "parity_loop cmp src d0 L fd0 (L + R - 1) il0 ir0 (L - 1) (L + R - 1) g0
       = Some (d2, fd2, bd2, il2, ir2, jl2, jr2, g2)"
    "merge_tail cmp src d2 bd2 jl2 jr2 g2 = Some (tk, d3, g3)"
    "merge_head cmp src d3 fd2 il2 ir2 g3 = Some (hl, dst1, arg1)"
proof -
  from assms have L: "0 < L"
    by (auto simp: parity_merge_ctx_def idx_pred_def split: Option.bind_splits if_splits)
  then have ip: "idx_pred (L + R) = Some (L + R - 1)" "idx_pred L = Some (L - 1)"
    by (simp_all add: idx_pred_def)
  define H where "H = (if L < R then do {
        (hl, dst1, arg1) \<leftarrow> merge_head cmp src dst 0 0 L arg;
        Some (dst1, 1 :: nat, if hl then 1 :: nat else 0, if hl then L else L + 1, arg1)
      }
      else Some (dst, 0, 0, L, arg))"
  from assms have "do {
     (dst0, i_ptd0, i_ptl0, i_ptr0, arg0) \<leftarrow> H;
     (dst2, i_ptd2, i_tpd2, i_ptl2, i_ptr2, i_tpl2, i_tpr2, arg2) \<leftarrow>
       parity_loop cmp src dst0 L i_ptd0 (L + R - 1) i_ptl0 i_ptr0 (L - 1) (L + R - 1) arg0;
     (_, dst3, arg3) \<leftarrow> merge_tail cmp src dst2 i_tpd2 i_tpl2 i_tpr2 arg2;
     (_, dst4, arg4) \<leftarrow> merge_head cmp src dst3 i_ptd2 i_ptl2 i_ptr2 arg3;
     Some (dst4, arg4)
   } = Some (dst1, arg1)"
    unfolding parity_merge_ctx_def ip H_def by (simp only: Option.bind.simps)
  then obtain d0 fd0 il0 ir0 g0 d2 fd2 bd2 il2 ir2 jl2 jr2 g2 tk d3 g3 hl where
    "H = Some (d0, fd0, il0, ir0, g0)"
    "parity_loop cmp src d0 L fd0 (L + R - 1) il0 ir0 (L - 1) (L + R - 1) g0
       = Some (d2, fd2, bd2, il2, ir2, jl2, jr2, g2)"
    "merge_tail cmp src d2 bd2 jl2 jr2 g2 = Some (tk, d3, g3)"
    "merge_head cmp src d3 fd2 il2 ir2 g3 = Some (hl, dst1, arg1)"
    by (auto split: Option.bind_splits)
  then show ?thesis using that[OF L] unfolding H_def by blast
qed

text \<open>
  The parity merger on two adjacent sorted runs whose lengths differ by at most one
  (\<open>L \<le> R \<le> L + 1\<close>): the destination receives their stable merge.
\<close>

lemma parity_merge_smerge:
  assumes an: "answers f cmp" and wo: "weak_ordering f"
    and L: "1 \<le> L" "L \<le> R" "R \<le> L + 1" and len: "L + R \<le> length src" and lend: "L + R \<le> length dst"
    and sx: "sorted_by f (take L src)" and sy: "sorted_by f (take R (drop L src))"
    and pm: "parity_merge_ctx cmp src dst L R arg = Some (dst1, arg1)"
  shows "take (L + R) dst1 = smerge f (take L src) (take R (drop L src))"
proof -
  define X where "X = take L src"
  define Y where "Y = take R (drop L src)"
  note rn = run_nth[OF X_def Y_def len]
  let ?M = "smerge f X Y"
  define h0 :: nat where "h0 = (if L < R then 1 else 0)"
  have hR: "h0 + L = R" using L by (simp add: h0_def)
  show ?thesis
  proof (rule parity_merge_ctxE[OF pm])
  fix d0 fd0 il0 ir0 g0 d2 fd2 bd2 il2 ir2 jl2 jr2 g2 tk d3 g3 hl
  assume Lpos: "0 < L" and
    hs: "(if L < R then do {
        (hl, dst1, arg1) \<leftarrow> merge_head cmp src dst 0 0 L arg;
        Some (dst1, 1, if hl then 1 else 0, if hl then L else L + 1, arg1)
      }
      else Some (dst, 0, 0, L, arg)) = Some (d0, fd0, il0, ir0, g0)" and
    lp: "parity_loop cmp src d0 L fd0 (L + R - 1) il0 ir0 (L - 1) (L + R - 1) g0
       = Some (d2, fd2, bd2, il2, ir2, jl2, jr2, g2)" and
    ft: "merge_tail cmp src d2 bd2 jl2 jr2 g2 = Some (tk, d3, g3)" and
    fh: "merge_head cmp src d3 fd2 il2 ir2 g3 = Some (hl, dst1, arg1)"
  have st: "pm_inv f X Y dst dst 0 0 L R"
    using pm_inv_start[of f X Y dst] rn by simp
  have "\<exists>a0 b0. fd0 = a0 + b0 \<and> il0 = a0 \<and> ir0 = L + b0 \<and> a0 + b0 = h0 \<and> pm_inv f X Y dst d0 a0 b0 L R"
  proof (cases "L < R")
    case True
    with hs obtain k where
      h: "merge_head cmp src dst 0 0 L arg = Some (k, d0, g0)" and
      e: "fd0 = 1" "il0 = (if k then 1 else 0)" "ir0 = (if k then L else L + 1)"
      by (auto split: Option.bind_splits)
    from True L have "0 < L" "0 < R" "0 + 0 < L + R" by simp_all
    from pm_head[OF an X_def Y_def len st this] h
    have "pm_inv f X Y dst d0 (if k then Suc 0 else 0) (if k then 0 else Suc 0) L R" by simp
    with e True show ?thesis
      by (intro exI[of _ "if k then Suc 0 else 0"] exI[of _ "if k then 0 else Suc 0"])
         (simp add: h0_def)
  next
    case False
    with hs have "d0 = dst" "fd0 = 0" "il0 = 0" "ir0 = L" by simp_all
    with False st show ?thesis
      by (intro exI[of _ 0]) (simp add: h0_def)
  qed
  then obtain a0 b0 where c0: "fd0 = a0 + b0" "il0 = a0" "ir0 = L + b0" "a0 + b0 = h0"
    and i0: "pm_inv f X Y dst d0 a0 b0 L R" by blast
  have lp': "parity_loop cmp src d0 L (a0 + b0) (L + R - 1) a0 (L + b0) (L - 1) (L + R - 1) g0
       = Some (d2, fd2, bd2, il2, ir2, jl2, jr2, g2)"
    using lp c0 by simp
  have pre: "1 \<le> L" "L \<le> L" "L \<le> R" "a0 + b0 + L \<le> L + 1" "a0 + b0 + 2 * L \<le> L + R"
    using L c0 hR by (simp_all add: h0_def)
  from parity_loop_inv[OF an wo X_def Y_def len L(2) sx[folded X_def] sy[folded Y_def] i0 pre lp']
  obtain a1 b1 u1 v1 where
    c1: "fd2 = a1 + b1" "il2 = a1" "ir2 = L + b1" "bd2 = u1 + v1 - 1" "jl2 = u1 - 1" "jr2 = L + v1 - 1"
    and i1: "pm_inv f X Y dst d2 a1 b1 u1 v1"
    and s1: "a1 + b1 + 1 = a0 + b0 + L" "u1 + v1 + L = L + R + 1" "1 \<le> u1" "1 \<le> v1"
    by blast
  from s1 c0 hR have ab1: "a1 + b1 + 1 = R" and uv1: "u1 + v1 = R + 1" by simp_all
  have ft': "merge_tail cmp src d2 (u1 + v1 - 1) (u1 - 1) (L + v1 - 1) g2 = Some (tk, d3, g3)"
    using ft c1 by simp
  have "0 < u1" "0 < v1" "a1 + b1 < u1 + v1" using s1 ab1 uv1 by simp_all
  from pm_tail[OF an wo X_def Y_def len sx[folded X_def] sy[folded Y_def] i1 this ft']
  have i2: "pm_inv f X Y dst d3 a1 b1 (if tk then u1 - 1 else u1) (if tk then v1 else v1 - 1)" .
  define u2 where "u2 = (if tk then u1 - 1 else u1)"
  define v2 where "v2 = (if tk then v1 else v1 - 1)"
  have uv2: "u2 + v2 = R" using uv1 s1 by (auto simp: u2_def v2_def)
  from i2 have fw: "fwd_ok f X Y a1 b1"
    and l3: "length d3 = length dst"
    and dr3: "drop (L + R) d3 = drop (L + R) dst"
    and lo3: "\<forall>i < a1 + b1. d3 ! i = ?M ! i"
    and hi3: "\<forall>i. R \<le> i \<and> i < L + R \<longrightarrow> d3 ! i = ?M ! i"
    using uv2 rn by (simp_all add: pm_inv_def u2_def v2_def)
  have fh': "merge_head cmp src d3 (a1 + b1) a1 (L + b1) g3 = Some (hl, dst1, arg1)"
    using fh c1 by simp
  from fw have a1L: "a1 \<le> L" by (simp add: fwd_ok_def rn)
  have w: "dst1 = d3[a1 + b1 := ?M ! (a1 + b1)]"
  proof (cases "a1 < L")
    case True
    from ab1 L have b1R: "b1 < R" by simp
    from merge_head_eq[OF an fh'] have
      hl: "hl = (f (src ! a1) (src ! (L + b1)) \<le> 0)" and
      d: "dst1 = d3[a1 + b1 := (if hl then src ! a1 else src ! (L + b1))]" by simp_all
    from fwd_step(1)[OF fw] True b1R rn hl have "(if hl then src ! a1 else src ! (L + b1)) = ?M ! (a1 + b1)"
      by simp
    with d show ?thesis by simp
  next
    case False
    with a1L have a: "a1 = L" by simp
    with ab1 L have b: "b1 = 0" and R: "0 < R" by simp_all
    from merge_head_eq[OF an fh'] a b have d: "dst1 = d3[L := src ! L]" by simp
    from fw a b have "fwd_ok f X Y (length X) 0" by (simp add: rn)
    from fwd_last[OF this] R rn have "?M ! L = src ! L" by simp
    with d a b show ?thesis by simp
  qed
  have lt: "a1 + b1 < length d3" using merge_head_eq[OF an fh'] by simp
  have "dst1 ! i = ?M ! i" if "i < L + R" for i
  proof -
    from that ab1 have "i < a1 + b1 \<or> i = a1 + b1 \<or> R \<le> i" by auto
    then show ?thesis
      using w lo3 hi3 lt that ab1 by (auto simp: nth_list_update)
  qed
  moreover have "length dst1 = length dst" using w l3 by simp
  moreover note lend
  ultimately have "take (L + R) dst1 = ?M"
    by (intro nth_equalityI) (simp_all add: length_smerge rn)
  then show ?thesis by (simp add: X_def Y_def)
  qed
qed

section \<open>The merge decision\<close>

lemma cmp_at_answers:
  assumes "answers f cmp" "i < length p" "j < length p"
  shows "\<exists>arg1. cmp_at cmp p i j arg = Some (f (p ! i) (p ! j), arg1)"
proof -
  obtain r a where c: "cmp (p ! i) (p ! j) arg = (r, a)" by (cases "cmp (p ! i) (p ! j) arg")
  with assms(1) have "r = f (p ! i) (p ! j)" by (metis answers_def fst_conv)
  with c assms(2,3) show ?thesis by (simp add: cmp_at_total)
qed

lemma already_ordered_answers:
  assumes an: "answers f cmp"
    and b: "0 < q1 g" "q1 g < length d" "0 < lh g" "lh g < length d" "lh g + q3 g < length d"
    and r: "already_ordered cmp d g arg = Some (res, arg1)"
  shows "res = (f (d ! (q1 g - 1)) (d ! q1 g) \<le> 0 \<and> f (d ! (lh g - 1)) (d ! lh g) \<le> 0
      \<and> f (d ! (lh g + q3 g - 1)) (d ! (lh g + q3 g)) \<le> 0)"
proof -
  have i: "q1 g - 1 < length d" "lh g - 1 < length d" "lh g + q3 g - 1 < length d"
    using b by simp_all
  have p: "idx_pred (q1 g) = Some (q1 g - 1)" "idx_pred (lh g) = Some (lh g - 1)"
    "idx_pred (lh g + q3 g) = Some (lh g + q3 g - 1)"
    using b by (simp_all add: idx_pred_def)
  from cmp_at_answers[OF an i(1) b(2)] obtain a1 where
    c1: "cmp_at cmp d (q1 g - 1) (q1 g) arg = Some (f (d ! (q1 g - 1)) (d ! q1 g), a1)" by blast
  from cmp_at_answers[OF an i(2) b(4)] obtain a2 where
    c2: "cmp_at cmp d (lh g - 1) (lh g) a1 = Some (f (d ! (lh g - 1)) (d ! lh g), a2)" by blast
  from cmp_at_answers[OF an i(3) b(5)] obtain a3 where
    c3: "cmp_at cmp d (lh g + q3 g - 1) (lh g + q3 g) a2
      = Some (f (d ! (lh g + q3 g - 1)) (d ! (lh g + q3 g)), a3)" by blast
  from r show ?thesis
    unfolding already_ordered_def p
    by (simp add: c1[simplified] c2[simplified] c3[simplified] split: if_splits)
qed

lemma fully_reversed_answers:
  assumes an: "answers f cmp"
    and b: "0 < q1 g" "q1 g < length d" "0 < lh g" "lh g < length d" "lh g + q3 g < length d"
      "0 < n" "n \<le> length d"
    and r: "fully_reversed cmp d n g arg = Some (res, arg1)"
  shows "res = (0 < f (d ! 0) (d ! (lh g - 1)) \<and> 0 < f (d ! q1 g) (d ! (lh g + q3 g - 1))
      \<and> 0 < f (d ! lh g) (d ! (n - 1)))"
proof -
  have i: "0 < length d" "lh g - 1 < length d" "lh g + q3 g - 1 < length d" "n - 1 < length d"
    using b by arith+
  have p: "idx_pred (lh g) = Some (lh g - 1)"
    "idx_pred (lh g + q3 g) = Some (lh g + q3 g - 1)" "idx_pred n = Some (n - 1)"
    using b by (simp_all add: idx_pred_def)
  from cmp_at_answers[OF an i(1) i(2)] obtain a1 where
    c1: "cmp_at cmp d 0 (lh g - 1) arg = Some (f (d ! 0) (d ! (lh g - 1)), a1)" by blast
  from cmp_at_answers[OF an b(2) i(3)] obtain a2 where
    c2: "cmp_at cmp d (q1 g) (lh g + q3 g - 1) a1
      = Some (f (d ! q1 g) (d ! (lh g + q3 g - 1)), a2)" by blast
  from cmp_at_answers[OF an b(4) i(4)] obtain a3 where
    c3: "cmp_at cmp d (lh g) (n - 1) a2 = Some (f (d ! lh g) (d ! (n - 1)), a3)" by blast
  from r show ?thesis
    unfolding fully_reversed_def p
    by (simp add: c1[simplified] c2[simplified] c3[simplified] split: if_splits)
qed

lemma sorted_by_append:
  "sorted_by f (xs @ ys) = (sorted_by f xs \<and> sorted_by f ys \<and> (\<forall>x \<in> set xs. \<forall>y \<in> set ys. f x y \<le> 0))"
  by (simp add: sorted_by_def sorted_wrt_append)

lemma sorted_by_last:
  assumes "weak_ordering f" "sorted_by f xs" "x \<in> set xs"
  shows "f x (last xs) \<le> 0"
proof -
  from assms(3) obtain i where i: "i < length xs" "x = xs ! i" by (auto simp: in_set_conv_nth)
  then have "xs \<noteq> []" by auto
  then have "last xs = xs ! (length xs - 1)" by (rule last_conv_nth)
  with i sorted_by_nth[OF assms(1,2), of i "length xs - 1"] show ?thesis by simp
qed

lemma sorted_by_hd:
  assumes "weak_ordering f" "sorted_by f xs" "x \<in> set xs"
  shows "f (hd xs) x \<le> 0"
proof -
  from assms(3) obtain i where i: "i < length xs" "x = xs ! i" by (auto simp: in_set_conv_nth)
  then have "xs \<noteq> []" by auto
  then have "hd xs = xs ! 0" by (rule hd_conv_nth)
  with i sorted_by_nth[OF assms(1,2), of 0 i] show ?thesis by simp
qed

text \<open>Two sorted blocks whose boundary pair is in order form a sorted block.\<close>

lemma sorted_by_join:
  assumes wo: "weak_ordering f" and "sorted_by f xs" "sorted_by f ys"
    and "f (last xs) (hd ys) \<le> 0"
  shows "sorted_by f (xs @ ys)"
proof -
  have "f x y \<le> 0" if "x \<in> set xs" "y \<in> set ys" for x y
  proof -
    have "f x (last xs) \<le> 0" using sorted_by_last[OF wo assms(2) that(1)] .
    moreover have "f (hd ys) y \<le> 0" using sorted_by_hd[OF wo assms(3) that(2)] .
    ultimately show ?thesis using assms(4) wo_trans[OF wo] by blast
  qed
  with assms(2,3) show ?thesis by (simp add: sorted_by_append)
qed

text \<open>Every element of the first block is after every element of the second.\<close>

definition block_gt :: "('a \<Rightarrow> 'a \<Rightarrow> int) \<Rightarrow> 'a list \<Rightarrow> 'a list \<Rightarrow> bool" where
  "block_gt f xs ys = (\<forall>x \<in> set xs. \<forall>y \<in> set ys. 0 < f x y)"

lemma block_gt_ends:
  assumes wo: "weak_ordering f" and "sorted_by f xs" "sorted_by f ys"
    and "0 < f (hd xs) (last ys)"
  shows "block_gt f xs ys"
  unfolding block_gt_def
proof (intro ballI)
  fix x y assume x: "x \<in> set xs" and y: "y \<in> set ys"
  have "f (hd xs) x \<le> 0" using sorted_by_hd[OF wo assms(2) x] .
  then have "0 < f x (last ys)" using assms(4) wo_le_gt[OF wo] by blast
  moreover have "f y (last ys) \<le> 0" using sorted_by_last[OF wo assms(3) y] .
  ultimately show "0 < f x y" using wo_gt_le[OF wo] by blast
qed

lemma block_gt_trans:
  assumes "weak_ordering f" "block_gt f xs ys" "block_gt f ys zs" "ys \<noteq> []"
  shows "block_gt f xs zs"
proof -
  from assms(4) obtain y where "y \<in> set ys" by (cases ys) auto
  with assms(2,3) show ?thesis
    unfolding block_gt_def using wo_gt_trans[OF assms(1)] by blast
qed

lemma block_gt_sorted:
  assumes "weak_ordering f" "block_gt f xs ys" "sorted_by f xs" "sorted_by f ys"
  shows "sorted_by f (ys @ xs)"
  using assms wo_total[OF assms(1)] by (auto simp: sorted_by_append block_gt_def)

lemma block_gt_filter:
  assumes "weak_ordering f" "block_gt f xs ys"
  shows "filter (\<lambda>x. f k x = 0) xs = [] \<or> filter (\<lambda>x. f k x = 0) ys = []"
proof (rule ccontr)
  assume "\<not> ?thesis"
  then obtain x y where x: "x \<in> set xs" "f k x = 0" and y: "y \<in> set ys" "f k y = 0"
    by (auto simp: filter_empty_conv)
  from x(2) have "f x k \<le> 0" using wo_eq_sym[OF assms(1)] by force
  with y(2) have "f x y \<le> 0" using wo_trans[OF assms(1), of x k y] by simp
  moreover from assms(2) x(1) y(1) have "0 < f x y" unfolding block_gt_def by blast
  ultimately show False by simp
qed

text \<open>Four sorted blocks in descending block order, reassembled in reverse.\<close>

lemma reversed_blocks:
  assumes wo: "weak_ordering f"
    and s: "sorted_by f A" "sorted_by f B" "sorted_by f C" "sorted_by f D"
    and ne: "B \<noteq> []" "C \<noteq> []"
    and g: "block_gt f A B" "block_gt f B C" "block_gt f C D"
  shows "stable_perm f (A @ B @ C @ D) (D @ C @ B @ A)" "sorted_by f (D @ C @ B @ A)"
proof -
  have ac: "block_gt f A C" using block_gt_trans[OF wo g(1,2) ne(1)] .
  have bd: "block_gt f B D" using block_gt_trans[OF wo g(2,3) ne(2)] .
  have ad: "block_gt f A D" using block_gt_trans[OF wo ac g(3) ne(2)] .
  have "filter (\<lambda>x. f k x = 0) (D @ C @ B @ A) = filter (\<lambda>x. f k x = 0) (A @ B @ C @ D)" for k
    using block_gt_filter[OF wo g(1), of k] block_gt_filter[OF wo g(2), of k]
      block_gt_filter[OF wo g(3), of k] block_gt_filter[OF wo ac, of k]
      block_gt_filter[OF wo bd, of k] block_gt_filter[OF wo ad, of k]
    by auto
  then show "stable_perm f (A @ B @ C @ D) (D @ C @ B @ A)"
    by (simp add: stable_perm_def)
  have "sorted_by f (B @ A)" using block_gt_sorted[OF wo g(1) s(1,2)] .
  moreover have "block_gt f (B @ A) C" using g(2) ac by (auto simp: block_gt_def)
  ultimately have "sorted_by f (C @ B @ A)" using block_gt_sorted[OF wo _ _ s(3)] by simp
  moreover have "block_gt f (C @ B @ A) D" using g(3) bd ad by (auto simp: block_gt_def)
  ultimately show "sorted_by f (D @ C @ B @ A)" using block_gt_sorted[OF wo _ _ s(4)] by simp
qed


lemma nth_block_hd: "xs \<noteq> [] \<Longrightarrow> (P @ xs @ S) ! length P = hd xs"
  by (simp add: nth_append hd_conv_nth)

lemma nth_block_last: "xs \<noteq> [] \<Longrightarrow> (P @ xs @ S) ! (length P + length xs - 1) = last xs"
  by (cases xs rule: rev_cases) (simp_all add: nth_append)

lemma parity_merge_ctx_length:
  assumes "parity_merge_ctx cmp src dst L R arg = Some (d, arg1)"
    "1 \<le> L" "L \<le> R" "L + R \<le> length src" "L + R \<le> length dst"
  shows "length d = length dst" "drop (L + R) d = drop (L + R) dst"
  using parity_merge_ctx_total[OF assms(2-5), of cmp arg] assms(1) by auto

text \<open>The three merges on four sorted quarters produce the merge of the two merged halves.\<close>

lemma merge_quarters_smerge:
  assumes an: "answers f cmp" and wo: "weak_ordering f"
    and g: "1 \<le> q1 sg" "q1 sg \<le> q2 sg" "q2 sg \<le> q1 sg + 1"
      "1 \<le> q3 sg" "q3 sg \<le> q4 sg" "q4 sg \<le> q3 sg + 1"
      "lh sg = q1 sg + q2 sg" "rh sg = q3 sg + q4 sg" "lh sg \<le> rh sg" "rh sg \<le> lh sg + 1"
    and len: "length A = q1 sg" "length B = q2 sg" "length C = q3 sg" "length D = q4 sg"
    and so: "sorted_by f A" "sorted_by f B" "sorted_by f C" "sorted_by f D"
    and sw: "lh sg + rh sg \<le> length sw"
    and mq: "merge_quarters cmp (A @ B @ C @ D @ T) sw sg arg = Some (d1, sw1, arg1)"
  shows "d1 = smerge f (smerge f A B) (smerge f C D) @ T"
proof -
  define d where "d = A @ B @ C @ D @ T"
  from mq obtain s1 a1 t a2 where
    m1: "parity_merge_ctx cmp d sw (q1 sg) (q2 sg) arg = Some (s1, a1)" and
    m2: "parity_merge_ctx cmp (drop (lh sg) d) (drop (lh sg) s1) (q3 sg) (q4 sg) a1 = Some (t, a2)" and
    m3: "parity_merge_ctx cmp (take (lh sg) s1 @ t) d (lh sg) (rh sg) a2 = Some (d1, arg1)"
    unfolding merge_quarters_def d_def[symmetric] Let_def
    by (auto split: Option.bind_splits)
  have ld: "length d = lh sg + rh sg + length T" by (simp add: d_def len g)
  have b1: "q1 sg + q2 sg \<le> length d" "q1 sg + q2 sg \<le> length sw" using ld sw g by simp_all
  have l1: "length s1 = length sw"
    using parity_merge_ctx_length(1)[OF m1 g(1,2) b1] .
  have t1: "take (q1 sg) d = A" "take (q2 sg) (drop (q1 sg) d) = B"
    by (simp_all add: d_def len)
  have e1: "take (lh sg) s1 = smerge f A B"
    using parity_merge_smerge[OF an wo g(1,2,3) b1 _ _ m1] so t1 g(7) by simp
  have dd: "drop (lh sg) d = C @ D @ T" by (simp add: d_def len g)
  have b2: "q3 sg + q4 sg \<le> length (drop (lh sg) d)" "q3 sg + q4 sg \<le> length (drop (lh sg) s1)"
    using ld sw g l1 by simp_all
  have l2: "length t = length sw - lh sg"
    using parity_merge_ctx_length(1)[OF m2 g(4,5) b2] l1 by simp
  have t2: "take (q3 sg) (drop (lh sg) d) = C" "take (q4 sg) (drop (q3 sg) (drop (lh sg) d)) = D"
    unfolding dd by (simp_all add: len)
  have e2: "take (rh sg) t = smerge f C D"
    using parity_merge_smerge[OF an wo g(4,5,6) b2 _ _ m2] so t2 g(8) by simp
  define s2 where "s2 = take (lh sg) s1 @ t"
  have lt: "length (take (lh sg) s1) = lh sg" using l1 sw by simp
  have t3: "take (lh sg) s2 = smerge f A B" "take (rh sg) (drop (lh sg) s2) = smerge f C D"
    using lt e1 e2 by (simp_all add: s2_def)
  have b3: "lh sg + rh sg \<le> length s2" "lh sg + rh sg \<le> length d"
    using lt l2 sw ld by (simp_all add: s2_def)
  have Lp: "1 \<le> lh sg" using g by simp
  have sAB: "sorted_by f (smerge f A B)" using sorted_smerge[OF wo so(1,2)] .
  have sCD: "sorted_by f (smerge f C D)" using sorted_smerge[OF wo so(3,4)] .
  have e3: "take (lh sg + rh sg) d1 = smerge f (smerge f A B) (smerge f C D)"
    using parity_merge_smerge[OF an wo Lp g(9,10) b3 _ _ m3[folded s2_def]] sAB sCD t3 by simp
  have "drop (lh sg + rh sg) d1 = drop (lh sg + rh sg) d"
    using parity_merge_ctx_length(2)[OF m3[folded s2_def] Lp g(9) b3] .
  also have "\<dots> = T" by (simp add: d_def len g)
  finally have "drop (lh sg + rh sg) d1 = T" .
  with e3 show ?thesis by (metis append_take_drop_id)
qed

lemma partition_array_near:
  "q2 (partition_array n) \<le> q1 (partition_array n) + 1"
  "q4 (partition_array n) \<le> q3 (partition_array n) + 1"
  "rh (partition_array n) \<le> lh (partition_array n) + 1"
  by (simp_all add: partition_array_def Let_def)

text \<open>
  The code at \<open>ret_addr_4\<close> on four sorted quarters: the run becomes a sorted stable
  rearrangement of the four quarters, and the cells after the run are kept.
\<close>

lemma merge_decision_sorts:
  assumes an: "answers f cmp" and wo: "weak_ordering f" and n: "8 \<le> n"
    and len: "length A = q1 (partition_array n)" "length B = q2 (partition_array n)"
      "length C = q3 (partition_array n)" "length D = q4 (partition_array n)"
    and so: "sorted_by f A" "sorted_by f B" "sorted_by f C" "sorted_by f D"
    and sw: "n \<le> length sw"
    and md: "merge_decision cmp (A @ B @ C @ D @ T) sw n (partition_array n) arg = Some (v, sw1, arg1)"
  shows "\<exists>Z. v = Z @ T \<and> stable_perm f (A @ B @ C @ D) Z \<and> sorted_by f Z"
proof -
  define g where "g = partition_array n"
  define d where "d = A @ B @ C @ D @ T"
  note ps = partition_array_sum[of n, folded g_def]
  note pg = partition_array_ge8[OF n, folded g_def]
  note pn = partition_array_near[of n, folded g_def]
  note len' = len[folded g_def]
  have ne: "A \<noteq> []" "B \<noteq> []" "C \<noteq> []" "D \<noteq> []" using len' pg by auto
  have ld: "length d = n + length T" using ps len' by (simp add: d_def)
  have ix: "d ! 0 = hd A" "d ! (q1 g - 1) = last A" "d ! q1 g = hd B" "d ! (lh g - 1) = last B"
    "d ! lh g = hd C" "d ! (lh g + q3 g - 1) = last C" "d ! (lh g + q3 g) = hd D"
    "d ! (n - 1) = last D"
  proof -
    show "d ! 0 = hd A" using nth_block_hd[OF ne(1), of "[]"] by (simp add: d_def)
    show "d ! (q1 g - 1) = last A" using nth_block_last[OF ne(1), of "[]"] by (simp add: d_def len')
    show "d ! q1 g = hd B" using nth_block_hd[OF ne(2), of A] by (simp add: d_def len')
    show "d ! (lh g - 1) = last B" using nth_block_last[OF ne(2), of A] by (simp add: d_def len' ps)
    show "d ! lh g = hd C" using nth_block_hd[OF ne(3), of "A @ B"] by (simp add: d_def len' ps)
    show "d ! (lh g + q3 g - 1) = last C"
      using nth_block_last[OF ne(3), of "A @ B"] by (simp add: d_def len' ps add.assoc)
    show "d ! (lh g + q3 g) = hd D"
      using nth_block_hd[OF ne(4), of "A @ B @ C"] by (simp add: d_def len' ps add.assoc)
    have "n = length (A @ B @ C) + length D" using ps len' by simp
    then show "d ! (n - 1) = last D"
      using nth_block_last[OF ne(4), of "A @ B @ C" T] by (simp add: d_def)
  qed
  have bd: "0 < q1 g" "q1 g < length d" "0 < lh g" "lh g < length d" "lh g + q3 g < length d"
    "0 < n" "n \<le> length d"
    using pg ps ld n by simp_all
  from md obtain ord a1 where
    ao: "already_ordered cmp d g arg = Some (ord, a1)" and
    r1: "(if ord then Some (d, sw, a1)
       else do {
         (rev, arg2) \<leftarrow> fully_reversed cmp d n g a1;
         if rev then do {
           (d1, sw1) \<leftarrow> rotate_quarters d sw g;
           Some (d1, sw1, arg2)
         }
         else merge_quarters cmp d sw g arg2
       }) = Some (v, sw1, arg1)"
    unfolding merge_decision_def g_def[symmetric] d_def[symmetric]
    by (cases "already_ordered cmp d g arg") auto
  note oa = already_ordered_answers[OF an bd(1-5) ao, unfolded ix]
  show ?thesis
  proof (cases ord)
    case True
    with r1 have v: "v = d" by simp
    from True oa have o: "f (last A) (hd B) \<le> 0" "f (last B) (hd C) \<le> 0" "f (last C) (hd D) \<le> 0"
      by simp_all
    have "sorted_by f (C @ D)" using sorted_by_join[OF wo so(3,4) o(3)] .
    moreover have "hd (C @ D) = hd C" using ne by simp
    ultimately have "sorted_by f (B @ C @ D)" using sorted_by_join[OF wo so(2), of "C @ D"] o(2) by simp
    moreover have "hd (B @ C @ D) = hd B" using ne by simp
    ultimately have "sorted_by f (A @ B @ C @ D)"
      using sorted_by_join[OF wo so(1), of "B @ C @ D"] o(1) by simp
    with v show ?thesis
      by (intro exI[of _ "A @ B @ C @ D"]) (simp add: d_def stable_perm_refl)
  next
    case False
    with r1 obtain rev a2 where
      fr: "fully_reversed cmp d n g a1 = Some (rev, a2)" and
      r2: "(if rev then do {
           (d1, sw1) \<leftarrow> rotate_quarters d sw g;
           Some (d1, sw1, a2)
         }
         else merge_quarters cmp d sw g a2) = Some (v, sw1, arg1)"
      by (cases "fully_reversed cmp d n g a1") auto
    note ra = fully_reversed_answers[OF an bd fr, unfolded ix]
    show ?thesis
    proof (cases rev)
      case True
      from rotate_quarters_blocks[OF len' ps(2), of sw T] ps sw obtain sw2 where
        "rotate_quarters d sw g = Some (D @ C @ B @ A @ T, sw2)" by (auto simp: d_def)
      with True r2 have v: "v = (D @ C @ B @ A) @ T" by simp
      from True ra have o: "0 < f (hd A) (last B)" "0 < f (hd B) (last C)" "0 < f (hd C) (last D)"
        by simp_all
      note bg = block_gt_ends[OF wo so(1,2) o(1)] block_gt_ends[OF wo so(2,3) o(2)]
        block_gt_ends[OF wo so(3,4) o(3)]
      from reversed_blocks[OF wo so ne(2,3) bg] v show ?thesis by blast
    next
      case False
      with r2 have mq: "merge_quarters cmp (A @ B @ C @ D @ T) sw g a2 = Some (v, sw1, arg1)"
        by (simp add: d_def)
      have p1: "1 \<le> q1 g" "1 \<le> q3 g" using pg by simp_all
      have sw': "lh g + rh g \<le> length sw" using sw ps by simp
      let ?Z = "smerge f (smerge f A B) (smerge f C D)"
      have v: "v = ?Z @ T"
        using merge_quarters_smerge[OF an wo p1(1) pg(2) pn(1) p1(2) pg(4) pn(2) ps(1,2) pg(6) pn(3)
            len' so sw' mq] .
      have sAB: "sorted_by f (smerge f A B)" using sorted_smerge[OF wo so(1,2)] .
      have sCD: "sorted_by f (smerge f C D)" using sorted_smerge[OF wo so(3,4)] .
      have "sorted_by f ?Z" using sorted_smerge[OF wo sAB sCD] .
      moreover have "stable_perm f (A @ B @ C @ D) ?Z"
        unfolding stable_perm_def
        by (simp add: mset_smerge filter_smerge[OF wo sAB sCD] filter_smerge[OF wo so(1,2)]
            filter_smerge[OF wo so(3,4)])
      ultimately show ?thesis using v by blast
    qed
  qed
qed


section \<open>The sort is a stable sort\<close>

lemma sort_run_length:
  assumes "sort_run cmp p sw arg off n = Some (p1, sw1, arg1)" "off + n \<le> length p" "n \<le> length sw"
  shows "length sw1 = length sw" "length p1 = length p"
  using sort_run_total[OF assms(2,3), of cmp arg] assms(1) by auto

text \<open>
  The run \<open>X\<close> of \<open>n\<close> cells at offset \<open>off\<close> becomes a sorted stable rearrangement of
  itself; the cells before and after it are kept.
\<close>

lemma sort_run_sorts:
  assumes an: "answers f cmp" and wo: "weak_ordering f"
  shows "length P = off \<Longrightarrow> length X = n \<Longrightarrow> n \<le> length sw \<Longrightarrow>
    sort_run cmp (P @ X @ S) sw arg off n = Some (p1, sw1, arg1) \<Longrightarrow>
    \<exists>Z. p1 = P @ Z @ S \<and> stable_perm f X Z \<and> sorted_by f Z"
proof (induction n arbitrary: P X S sw arg off p1 sw1 arg1 rule: less_induct)
  case (less n)
  note lP = less.prems(1) and lX = less.prems(2) and lsw = less.prems(3) and run = less.prems(4)
  show ?case
  proof (cases "n \<le> 7")
    case True
    from run obtain v where
      ov: "oddeven_sort_ctx cmp (drop off (P @ X @ S)) n arg = Some (v, arg1)" and
      p1: "p1 = take off (P @ X @ S) @ v"
      by (auto simp: sort_run_base[OF True] split: Option.bind_splits)
    from ov lP lX have "oddeven_sort_ctx cmp (X @ S) (length X) arg = Some (v, arg1)" by simp
    from oddeven_sorts[OF an wo _ this] True lX obtain Y where
      "v = Y @ S" "stable_perm f X Y" "sorted_by f Y" by auto
    with p1 lP show ?thesis by auto
  next
    case False
    then have n8: "8 \<le> n" by simp
    define g where "g = partition_array n"
    note ps = partition_array_sum[of n, folded g_def]
    note pg = partition_array_ge8[OF n8, folded g_def]
    define X1 where "X1 = take (q1 g) X"
    define X2 where "X2 = take (q2 g) (drop (q1 g) X)"
    define X3 where "X3 = take (q3 g) (drop (lh g) X)"
    define X4 where "X4 = drop (lh g + q3 g) X"
    have lq: "length X1 = q1 g" "length X2 = q2 g" "length X3 = q3 g" "length X4 = q4 g"
      using ps lX by (simp_all add: X1_def X2_def X3_def X4_def)
    have "X = take (q1 g) X @ drop (q1 g) X" by simp
    also have "drop (q1 g) X = take (q2 g) (drop (q1 g) X) @ drop (lh g) X"
      by (metis append_take_drop_id drop_drop add.commute ps(1))
    also have "drop (lh g) X = take (q3 g) (drop (lh g) X) @ drop (lh g + q3 g) X"
      by (metis append_take_drop_id drop_drop add.commute)
    finally have X: "X = X1 @ X2 @ X3 @ X4" by (simp add: X1_def X2_def X3_def X4_def)
    have small: "q1 g < n" "q2 g < n" "q3 g < n" "q4 g < n" using ps pg by simp_all
    from run[unfolded sort_run_split[OF False], folded g_def]
    obtain p1' s1 a1 p2 s2 a2 p3 s3 a3 p4 s4 a4 v where
      r1: "sort_run cmp (P @ X @ S) sw arg off (q1 g) = Some (p1', s1, a1)" and
      r2: "sort_run cmp p1' s1 a1 (off + q1 g) (q2 g) = Some (p2, s2, a2)" and
      r3: "sort_run cmp p2 s2 a2 (off + lh g) (q3 g) = Some (p3, s3, a3)" and
      r4: "sort_run cmp p3 s3 a3 (off + lh g + q3 g) (q4 g) = Some (p4, s4, a4)" and
      md: "merge_decision cmp (drop off p4) s4 n g a4 = Some (v, sw1, arg1)" and
      res: "p1 = take off p4 @ v"
      by (auto split: Option.bind_splits)
    have lp: "length (P @ X @ S) = off + n + length S" using lP lX by simp
    have k1: "length s1 = length sw" "length p1' = length (P @ X @ S)"
      using sort_run_length[OF r1] lp lsw small by simp_all
    have k2: "length s2 = length sw" "length p2 = length (P @ X @ S)"
      using sort_run_length[OF r2] lp lsw small k1 ps by simp_all
    have k3: "length s3 = length sw" "length p3 = length (P @ X @ S)"
      using sort_run_length[OF r3] lp lsw small k2 ps by simp_all
    have k4: "length s4 = length sw" "length p4 = length (P @ X @ S)"
      using sort_run_length[OF r4] lp lsw small k3 ps by simp_all
    have q: "q1 g \<le> length sw" "q2 g \<le> length sw" "q3 g \<le> length sw" "q4 g \<le> length sw"
      using small lsw by simp_all
    from r1 have "sort_run cmp (P @ X1 @ (X2 @ X3 @ X4 @ S)) sw arg off (q1 g) = Some (p1', s1, a1)"
      by (simp add: X)
    from less.IH[OF small(1) lP lq(1) q(1) this] obtain Z1 where
      z1: "p1' = P @ Z1 @ X2 @ X3 @ X4 @ S" "stable_perm f X1 Z1" "sorted_by f Z1" by blast
    have lz1: "length Z1 = q1 g" using stable_perm_length[OF z1(2)] lq by simp
    from r2 have "sort_run cmp ((P @ Z1) @ X2 @ (X3 @ X4 @ S)) s1 a1 (off + q1 g) (q2 g) = Some (p2, s2, a2)"
      by (simp add: z1)
    from less.IH[OF small(2) _ lq(2) _ this] lP lz1 q k1 obtain Z2 where
      z2: "p2 = (P @ Z1) @ Z2 @ X3 @ X4 @ S" "stable_perm f X2 Z2" "sorted_by f Z2" by auto
    have lz2: "length Z2 = q2 g" using stable_perm_length[OF z2(2)] lq by simp
    from r3 have "sort_run cmp ((P @ Z1 @ Z2) @ X3 @ (X4 @ S)) s2 a2 (off + lh g) (q3 g) = Some (p3, s3, a3)"
      by (simp add: z2)
    from less.IH[OF small(3) _ lq(3) _ this] lP lz1 lz2 q k2 ps obtain Z3 where
      z3: "p3 = (P @ Z1 @ Z2) @ Z3 @ X4 @ S" "stable_perm f X3 Z3" "sorted_by f Z3" by auto
    have lz3: "length Z3 = q3 g" using stable_perm_length[OF z3(2)] lq by simp
    from r4 have "sort_run cmp ((P @ Z1 @ Z2 @ Z3) @ X4 @ S) s3 a3 (off + lh g + q3 g) (q4 g) = Some (p4, s4, a4)"
      by (simp add: z3)
    from less.IH[OF small(4) _ lq(4) _ this] lP lz1 lz2 lz3 q k3 ps obtain Z4 where
      z4: "p4 = (P @ Z1 @ Z2 @ Z3) @ Z4 @ S" "stable_perm f X4 Z4" "sorted_by f Z4" by auto
    have lz4: "length Z4 = q4 g" using stable_perm_length[OF z4(2)] lq by simp
    have dp: "drop off p4 = Z1 @ Z2 @ Z3 @ Z4 @ S" "take off p4 = P" using z4(1) lP by simp_all
    have lsw4: "n \<le> length s4" using k4 lsw by simp
    from merge_decision_sorts[OF an wo n8 lz1[unfolded g_def] lz2[unfolded g_def] lz3[unfolded g_def]
        lz4[unfolded g_def] z1(3) z2(3) z3(3) z4(3) lsw4 md[unfolded dp g_def]]
    obtain Z where z: "v = Z @ S" "stable_perm f (Z1 @ Z2 @ Z3 @ Z4) Z" "sorted_by f Z" by blast
    have "stable_perm f (X1 @ X2 @ X3 @ X4) (Z1 @ Z2 @ Z3 @ Z4)"
      by (intro stable_perm_append z1 z2 z3 z4)
    from stable_perm_trans[OF this z(2)] have "stable_perm f X Z" unfolding X .
    with z res dp show ?thesis by simp
  qed
qed

section \<open>The sort on the whole buffer (C1, C2)\<close>

lemma xsort_result_stable_sorted:
  assumes an: "answers f cmp" and wo: "weak_ordering f"
    and n: "n \<le> length p" "length swap0 = n"
  shows "\<exists>Z arg1. xsort cmp swap0 p n arg = Some (Z @ drop n p, arg1)
           \<and> stable_perm f (take n p) Z \<and> sorted_by f Z"
proof -
  from n have "0 + n \<le> length p" "n \<le> length swap0" by simp_all
  from sort_run_total[OF this, of cmp arg] obtain p1 sw1 arg1 where
    r: "sort_run cmp p swap0 arg 0 n = Some (p1, sw1, arg1)" by auto
  then have "sort_run cmp ([] @ take n p @ drop n p) swap0 arg 0 n = Some (p1, sw1, arg1)" by simp
  from sort_run_sorts[OF an wo _ _ _ this] n obtain Z where
    "p1 = Z @ drop n p" "stable_perm f (take n p) Z" "sorted_by f Z" by auto
  with xsort_sort_run[OF r] show ?thesis by blast
qed

lemma weak_ordering_int_cmp: "weak_ordering int_cmp"
  by (auto simp: weak_ordering_def int_cmp_def)

text \<open>A comparator on records that looks at the key only: the first component.\<close>

definition key_cmp :: "int \<times> int \<Rightarrow> int \<times> int \<Rightarrow> int" where
  "key_cmp a b = fst a - fst b"

lemma weak_ordering_key_cmp: "weak_ordering key_cmp"
  by (auto simp: weak_ordering_def key_cmp_def)

text \<open>
  C1. With a comparator that is a consistent weak ordering (its answer is a function \<open>f\<close>
  of the two elements, whatever the context holds, and \<open>f\<close> is a weak ordering), on a
  buffer of at least \<open>n\<close> cells and an auxiliary buffer of \<open>n\<close> cells, \<open>xsort\<close> returns;
  the run holds the elements it held before, each as often as before, the cells after the
  run are kept, and the comparator puts every adjacent pair of the run in order, in every
  context.
\<close>

theorem xsort_sorts:
  assumes "answers f cmp" "weak_ordering f" "n \<le> length p" "length swap0 = n"
  shows "\<exists>p1 arg1. xsort cmp swap0 p n arg = Some (p1, arg1)
           \<and> mset (take n p1) = mset (take n p) \<and> drop n p1 = drop n p \<and> mset p1 = mset p
           \<and> (\<forall>i c. Suc i < n \<longrightarrow> fst (cmp (p1 ! i) (p1 ! Suc i) c) \<le> 0)"
proof -
  from xsort_result_stable_sorted[OF assms, of arg] obtain Z arg1 where
    x: "xsort cmp swap0 p n arg = Some (Z @ drop n p, arg1)" and
    sp: "stable_perm f (take n p) Z" and so: "sorted_by f Z" by blast
  have lz: "length Z = n" using stable_perm_length[OF sp] assms(3) by simp
  have m: "mset Z = mset (take n p)" using sp by (simp add: stable_perm_def)
  have mp: "mset (Z @ drop n p) = mset p"
    using m by (metis append_take_drop_id mset_append)
  have "fst (cmp ((Z @ drop n p) ! i) ((Z @ drop n p) ! Suc i) c) \<le> 0" if "Suc i < n" for i c
  proof -
    from that lz have "(Z @ drop n p) ! i = Z ! i" "(Z @ drop n p) ! Suc i = Z ! Suc i"
      by (simp_all add: nth_append)
    moreover from so that lz have "f (Z ! i) (Z ! Suc i) \<le> 0"
      by (simp add: sorted_by_adjacent[OF assms(2)])
    ultimately show ?thesis using assms(1) by (simp add: answers_def)
  qed
  with x lz m mp show ?thesis by simp
qed

theorem xsort_sorts_witness:
  "answers int_cmp (pure_cmp int_cmp :: (int, unit) cmp_ctx_fn_t) \<and> weak_ordering int_cmp
   \<and> 9 \<le> length [5, 3, 9, 1, 7, 3, 8, 2, 6, 4 :: int]
   \<and> (\<exists>p1 arg1. xsort (pure_cmp int_cmp) [0, 0, 0, 0, 0, 0, 0, 0, 0] [5, 3, 9, 1, 7, 3, 8, 2, 6, 4] 9 () = Some (p1, arg1)
        \<and> mset (take 9 p1) = mset (take 9 [5, 3, 9, 1, 7, 3, 8, 2, 6, 4])
        \<and> drop 9 p1 = drop 9 [5, 3, 9, 1, 7, 3, 8, 2, 6, 4]
        \<and> mset p1 = mset [5, 3, 9, 1, 7, 3, 8, 2, 6, 4]
        \<and> (\<forall>i (c :: unit). Suc i < 9 \<longrightarrow> fst (pure_cmp int_cmp (p1 ! i) (p1 ! Suc i) c) \<le> 0))"
proof -
  have a: "answers int_cmp (pure_cmp int_cmp :: (int, unit) cmp_ctx_fn_t)" by (rule answers_pure)
  have l: "9 \<le> length [5, 3, 9, 1, 7, 3, 8, 2, 6, 4 :: int]"
    "length [0, 0, 0, 0, 0, 0, 0, 0, 0 :: int] = 9" by simp_all
  from xsort_sorts[OF a weak_ordering_int_cmp l, of "()"] a weak_ordering_int_cmp l(1)
  show ?thesis by (intro conjI) assumption+
qed

text \<open>
  C2. With a comparator that is a consistent weak ordering, \<open>xsort\<close> is stable: for every
  element \<open>k\<close>, the elements of the run that the comparator considers equal to \<open>k\<close> stand
  in the output in the order they had in the input. And a forward step of the parity
  merger whose comparison is a tie (or any result \<open>\<le> 0\<close>) writes the element of the left
  run.
\<close>

theorem xsort_stable:
  assumes "answers f cmp" "weak_ordering f" "n \<le> length p" "length swap0 = n"
  shows "(\<exists>p1 arg1. xsort cmp swap0 p n arg = Some (p1, arg1)
            \<and> (\<forall>k. filter (\<lambda>x. f k x = 0) (take n p1) = filter (\<lambda>x. f k x = 0) (take n p)))
         \<and> (\<forall>src dst i l r c. l < length src \<and> r < length src \<and> i < length dst
              \<and> f (src ! l) (src ! r) \<le> 0
              \<longrightarrow> (\<exists>c1. merge_head cmp src dst i l r c = Some (True, dst[i := src ! l], c1)))"
proof (intro conjI allI impI)
  from xsort_result_stable_sorted[OF assms, of arg] obtain Z arg1 where
    x: "xsort cmp swap0 p n arg = Some (Z @ drop n p, arg1)" and
    sp: "stable_perm f (take n p) Z" by blast
  have lz: "length Z = n" using stable_perm_length[OF sp] assms(3) by simp
  from sp have "\<forall>k. filter (\<lambda>x. f k x = 0) Z = filter (\<lambda>x. f k x = 0) (take n p)"
    by (simp add: stable_perm_def)
  with x lz show "\<exists>p1 arg1. xsort cmp swap0 p n arg = Some (p1, arg1)
            \<and> (\<forall>k. filter (\<lambda>x. f k x = 0) (take n p1) = filter (\<lambda>x. f k x = 0) (take n p))"
    by simp
next
  fix src dst :: "'a list" and i l r c
  assume h: "l < length src \<and> r < length src \<and> i < length dst \<and> f (src ! l) (src ! r) \<le> 0"
  then have b: "l < length src" "r < length src" by simp_all
  from cmp_at_answers[OF assms(1) b, of c] obtain c1 where
    "cmp_at cmp src l r c = Some (f (src ! l) (src ! r), c1)" by blast
  with h show "\<exists>c1. merge_head cmp src dst i l r c = Some (True, dst[i := src ! l], c1)"
    by (simp add: merge_head_def rd_def wr_def)
qed

theorem xsort_stable_witness:
  "answers key_cmp (pure_cmp key_cmp :: (int \<times> int, unit) cmp_ctx_fn_t) \<and> weak_ordering key_cmp
   \<and> (\<exists>p1 arg1. xsort (pure_cmp key_cmp) (replicate 9 (0, 0))
          [(2, 0), (1, 1), (2, 2), (1, 3), (3, 4), (2, 5), (1, 6), (3, 7), (2, 8)] 9 () = Some (p1, arg1)
        \<and> filter (\<lambda>x. key_cmp (2, 0) x = 0) (take 9 p1) = [(2, 0), (2, 2), (2, 5), (2, 8)])
   \<and> (\<exists>c1. merge_head (pure_cmp key_cmp) [(1, 0), (1, 1)] [(0, 0)] 0 0 1 () = Some (True, [(1, 0)], c1))"
proof -
  let ?p = "[(2, 0), (1, 1), (2, 2), (1, 3), (3, 4), (2, 5), (1, 6), (3, 7), (2, 8)] :: (int \<times> int) list"
  have a: "answers key_cmp (pure_cmp key_cmp :: (int \<times> int, unit) cmp_ctx_fn_t)" by (rule answers_pure)
  have l: "9 \<le> length ?p" "length (replicate 9 (0 :: int, 0 :: int)) = 9" by simp_all
  note t = xsort_stable[OF a weak_ordering_key_cmp l, of "()"]
  from t[THEN conjunct1] obtain p1 arg1 where
    x: "xsort (pure_cmp key_cmp) (replicate 9 (0, 0)) ?p 9 () = Some (p1, arg1)" and
    f: "\<forall>k. filter (\<lambda>x. key_cmp k x = 0) (take 9 p1) = filter (\<lambda>x. key_cmp k x = 0) (take 9 ?p)"
    by blast
  from f[rule_format, of "(2, 0)"]
  have "filter (\<lambda>x. key_cmp (2, 0) x = 0) (take 9 p1) = [(2, 0), (2, 2), (2, 5), (2, 8)]"
    by (simp add: key_cmp_def)
  with x have 1: "\<exists>p1 arg1. xsort (pure_cmp key_cmp) (replicate 9 (0, 0)) ?p 9 () = Some (p1, arg1)
        \<and> filter (\<lambda>x. key_cmp (2, 0) x = 0) (take 9 p1) = [(2, 0), (2, 2), (2, 5), (2, 8)]"
    by blast
  from t[THEN conjunct2, rule_format, of 0 "[(1, 0), (1, 1)]" 1 0 "[(0, 0)]" "()"]
  have 2: "\<exists>c1. merge_head (pure_cmp key_cmp) [(1, 0), (1, 1)] [(0, 0)] 0 0 1 () = Some (True, [(1, 0)], c1)"
    by (simp add: key_cmp_def)
  from a weak_ordering_key_cmp 1 2 show ?thesis by (intro conjI) assumption+
qed

section \<open>Sorted and reversed input (C7, C8)\<close>

text \<open>A sorted list has one sorted stable rearrangement: itself.\<close>

lemma sorted_stable_unique:
  assumes wo: "weak_ordering f"
  shows "sorted_by f X \<Longrightarrow> sorted_by f Z \<Longrightarrow> stable_perm f X Z \<Longrightarrow> Z = X"
proof (induction X arbitrary: Z)
  case Nil
  then show ?case by (simp add: stable_perm_def)
next
  case (Cons x xs)
  from Cons.prems(3) have m: "mset Z = mset (x # xs)"
    and fl: "\<And>k. filter (\<lambda>y. f k y = 0) Z = filter (\<lambda>y. f k y = 0) (x # xs)"
    by (simp_all add: stable_perm_def)
  from m obtain z zs where Z: "Z = z # zs" by (cases Z) auto
  have "z \<in> set (x # xs)" using m Z by (metis list.set_intros(1) mset_eq_setD)
  then have xz: "f x z \<le> 0" using Cons.prems(1) wo_refl[OF wo, of x] by (auto simp: sorted_by_def)
  have "x \<in> set (z # zs)" using m Z by (metis list.set_intros(1) mset_eq_setD)
  then have zx: "f z x \<le> 0" using Cons.prems(2) Z wo_refl[OF wo, of z] by (auto simp: sorted_by_def)
  have e: "f x z = 0" using xz zx wo_flip[OF wo, of z x] by simp
  from fl[of x] have zx': "z = x" using e wo_refl[OF wo, of x] Z by simp
  have "mset zs = mset xs" using m Z zx' by simp
  moreover have "filter (\<lambda>y. f k y = 0) zs = filter (\<lambda>y. f k y = 0) xs" for k
    using fl[of k] Z zx' by (cases "f k x = 0") simp_all
  ultimately have "stable_perm f xs zs" by (simp add: stable_perm_def)
  moreover have "sorted_by f xs" "sorted_by f zs" using Cons.prems(1,2) Z by (simp_all add: sorted_by_def)
  ultimately have "zs = xs" using Cons.IH by blast
  with Z zx' show ?case by simp
qed

lemma take_drop_sub: "off + m \<le> n \<Longrightarrow> take m (drop off (take n p)) = take m (drop off p)"
  by (simp add: drop_take min_def)

lemma sorted_by_sub:
  assumes "sorted_by f (take n p)" "off + m \<le> n"
  shows "sorted_by f (take m (drop off p))"
proof -
  have "sorted_by f (take m (drop off (take n p)))"
    unfolding sorted_by_def
    by (rule sorted_wrt_take, rule sorted_wrt_drop, rule assms(1)[unfolded sorted_by_def])
  with assms(2) show ?thesis by (simp add: take_drop_sub)
qed

text \<open>The four quarter sorts of a run of at least 8 cells at the start of the buffer.\<close>

lemma sort_quarters_sorts:
  assumes an: "answers f cmp" and wo: "weak_ordering f"
    and n: "8 \<le> n" "length X = n" "n \<le> length sw"
  shows "\<exists>Z1 Z2 Z3 Z4 sw4 arg4.
     sort_quarters cmp (X @ S) sw arg 0 (partition_array n) = Some (Z1 @ Z2 @ Z3 @ Z4 @ S, sw4, arg4)
     \<and> length sw4 = length sw
     \<and> stable_perm f (take (q1 (partition_array n)) X) Z1
     \<and> stable_perm f (take (q2 (partition_array n)) (drop (q1 (partition_array n)) X)) Z2
     \<and> stable_perm f (take (q3 (partition_array n)) (drop (lh (partition_array n)) X)) Z3
     \<and> stable_perm f (drop (lh (partition_array n) + q3 (partition_array n)) X) Z4
     \<and> sorted_by f Z1 \<and> sorted_by f Z2 \<and> sorted_by f Z3 \<and> sorted_by f Z4"
proof -
  define g where "g = partition_array n"
  note ps = partition_array_sum[of n, folded g_def]
  note pg = partition_array_ge8[OF n(1), folded g_def]
  define X1 where "X1 = take (q1 g) X"
  define X2 where "X2 = take (q2 g) (drop (q1 g) X)"
  define X3 where "X3 = take (q3 g) (drop (lh g) X)"
  define X4 where "X4 = drop (lh g + q3 g) X"
  have lq: "length X1 = q1 g" "length X2 = q2 g" "length X3 = q3 g" "length X4 = q4 g"
    using ps n(2) by (simp_all add: X1_def X2_def X3_def X4_def)
  have "X = take (q1 g) X @ drop (q1 g) X" by simp
  also have "drop (q1 g) X = take (q2 g) (drop (q1 g) X) @ drop (lh g) X"
    by (metis append_take_drop_id drop_drop add.commute ps(1))
  also have "drop (lh g) X = take (q3 g) (drop (lh g) X) @ drop (lh g + q3 g) X"
    by (metis append_take_drop_id drop_drop add.commute)
  finally have X: "X = X1 @ X2 @ X3 @ X4" by (simp add: X1_def X2_def X3_def X4_def)
  have q: "q1 g \<le> length sw" "q2 g \<le> length sw" "q3 g \<le> length sw" "q4 g \<le> length sw"
    using ps pg n(3) by simp_all
  have lp: "length (X @ S) = n + length S" using n(2) by simp
  have "0 + q1 g \<le> length (X @ S)" using lp ps by simp
  from sort_run_total[OF this q(1), of cmp arg] obtain p1 s1 a1 where
    r1: "sort_run cmp (X @ S) sw arg 0 (q1 g) = Some (p1, s1, a1)" and
    k1: "length s1 = length sw" by auto
  from r1 have "sort_run cmp ([] @ X1 @ (X2 @ X3 @ X4 @ S)) sw arg 0 (q1 g) = Some (p1, s1, a1)"
    by (simp add: X)
  from sort_run_sorts[OF an wo _ lq(1) q(1) this] obtain Z1 where
    z1: "p1 = Z1 @ X2 @ X3 @ X4 @ S" "stable_perm f X1 Z1" "sorted_by f Z1" by auto
  have lz1: "length Z1 = q1 g" using stable_perm_length[OF z1(2)] lq by simp
  have "q1 g + q2 g \<le> length p1" "q2 g \<le> length s1" using z1(1) lz1 lq k1 q by simp_all
  from sort_run_total[OF this, of cmp a1] obtain p2 s2 a2 where
    r2: "sort_run cmp p1 s1 a1 (q1 g) (q2 g) = Some (p2, s2, a2)" and
    k2: "length s2 = length sw" using k1 by auto
  from r2 have "sort_run cmp (Z1 @ X2 @ (X3 @ X4 @ S)) s1 a1 (q1 g) (q2 g) = Some (p2, s2, a2)"
    by (simp add: z1)
  from sort_run_sorts[OF an wo lz1 lq(2) _ this] q k1 obtain Z2 where
    z2: "p2 = Z1 @ Z2 @ X3 @ X4 @ S" "stable_perm f X2 Z2" "sorted_by f Z2" by auto
  have lz2: "length Z2 = q2 g" using stable_perm_length[OF z2(2)] lq by simp
  have "lh g + q3 g \<le> length p2" "q3 g \<le> length s2" using z2(1) lz1 lz2 lq k2 q ps by simp_all
  from sort_run_total[OF this, of cmp a2] obtain p3 s3 a3 where
    r3: "sort_run cmp p2 s2 a2 (lh g) (q3 g) = Some (p3, s3, a3)" and
    k3: "length s3 = length sw" using k2 by auto
  from r3 have "sort_run cmp ((Z1 @ Z2) @ X3 @ (X4 @ S)) s2 a2 (lh g) (q3 g) = Some (p3, s3, a3)"
    by (simp add: z2)
  from sort_run_sorts[OF an wo _ lq(3) _ this] lz1 lz2 ps q k2 obtain Z3 where
    z3: "p3 = (Z1 @ Z2) @ Z3 @ X4 @ S" "stable_perm f X3 Z3" "sorted_by f Z3" by auto
  have lz3: "length Z3 = q3 g" using stable_perm_length[OF z3(2)] lq by simp
  have "lh g + q3 g + q4 g \<le> length p3" "q4 g \<le> length s3"
    using z3(1) lz1 lz2 lz3 lq k3 q ps by simp_all
  from sort_run_total[OF this, of cmp a3] obtain p4 s4 a4 where
    r4: "sort_run cmp p3 s3 a3 (lh g + q3 g) (q4 g) = Some (p4, s4, a4)" and
    k4: "length s4 = length sw" using k3 by auto
  from r4 have "sort_run cmp ((Z1 @ Z2 @ Z3) @ X4 @ S) s3 a3 (lh g + q3 g) (q4 g) = Some (p4, s4, a4)"
    by (simp add: z3)
  from sort_run_sorts[OF an wo _ lq(4) _ this] lz1 lz2 lz3 ps q k3 obtain Z4 where
    z4: "p4 = (Z1 @ Z2 @ Z3) @ Z4 @ S" "stable_perm f X4 Z4" "sorted_by f Z4" by auto
  have "sort_quarters cmp (X @ S) sw arg 0 g = Some (Z1 @ Z2 @ Z3 @ Z4 @ S, s4, a4)"
    using r1 r2 r3 r4 z4(1) by (simp add: sort_quarters_def)
  with k4 z1 z2 z3 z4 show ?thesis
    unfolding g_def[symmetric] X1_def[symmetric] X2_def[symmetric] X3_def[symmetric] X4_def[symmetric]
    by blast
qed

text \<open>On a sorted run the four quarter sorts leave the buffer as it is.\<close>

lemma sort_quarters_sorted_id:
  assumes an: "answers f cmp" and wo: "weak_ordering f"
    and n: "8 \<le> n" "n \<le> length p" "n \<le> length sw" and so: "sorted_by f (take n p)"
  shows "\<exists>sw4 arg4. sort_quarters cmp p sw arg 0 (partition_array n) = Some (p, sw4, arg4)
           \<and> length sw4 = length sw"
proof -
  define g where "g = partition_array n"
  note ps = partition_array_sum[of n, folded g_def]
  define X where "X = take n p"
  have lX: "length X = n" using n(2) by (simp add: X_def)
  from sort_quarters_sorts[OF an wo n(1) lX n(3), of "drop n p" arg, folded g_def]
  obtain Z1 Z2 Z3 Z4 sw4 arg4 where
    sq: "sort_quarters cmp (X @ drop n p) sw arg 0 g = Some (Z1 @ Z2 @ Z3 @ Z4 @ drop n p, sw4, arg4)" and
    l4: "length sw4 = length sw" and
    sp: "stable_perm f (take (q1 g) X) Z1" "stable_perm f (take (q2 g) (drop (q1 g) X)) Z2"
      "stable_perm f (take (q3 g) (drop (lh g) X)) Z3" "stable_perm f (drop (lh g + q3 g) X) Z4" and
    sz: "sorted_by f Z1" "sorted_by f Z2" "sorted_by f Z3" "sorted_by f Z4"
    by blast
  have sX: "sorted_by f (take n X)" using so lX by (simp add: X_def)
  have s1: "sorted_by f (take (q1 g) X)" using sorted_by_sub[OF sX, of 0 "q1 g"] ps by simp
  have s2: "sorted_by f (take (q2 g) (drop (q1 g) X))" using sorted_by_sub[OF sX, of "q1 g" "q2 g"] ps by simp
  have s3: "sorted_by f (take (q3 g) (drop (lh g) X))" using sorted_by_sub[OF sX, of "lh g" "q3 g"] ps by simp
  have "sorted_by f (take (q4 g) (drop (lh g + q3 g) X))"
    using sorted_by_sub[OF sX, of "lh g + q3 g" "q4 g"] ps by simp
  then have s4: "sorted_by f (drop (lh g + q3 g) X)" using lX ps by simp
  have e: "Z1 = take (q1 g) X" "Z2 = take (q2 g) (drop (q1 g) X)"
    "Z3 = take (q3 g) (drop (lh g) X)" "Z4 = drop (lh g + q3 g) X"
    using sorted_stable_unique[OF wo s1 sz(1) sp(1)] sorted_stable_unique[OF wo s2 sz(2) sp(2)]
      sorted_stable_unique[OF wo s3 sz(3) sp(3)] sorted_stable_unique[OF wo s4 sz(4) sp(4)]
    by simp_all
  have "X = take (q1 g) X @ drop (q1 g) X" by simp
  also have "drop (q1 g) X = take (q2 g) (drop (q1 g) X) @ drop (lh g) X"
    by (metis append_take_drop_id drop_drop add.commute ps(1))
  also have "drop (lh g) X = take (q3 g) (drop (lh g) X) @ drop (lh g + q3 g) X"
    by (metis append_take_drop_id drop_drop add.commute)
  finally have XZ: "X = Z1 @ Z2 @ Z3 @ Z4" by (simp add: e)
  have Xp: "X @ drop n p = p" by (simp add: X_def)
  have "Z1 @ Z2 @ Z3 @ Z4 @ drop n p = (Z1 @ Z2 @ Z3 @ Z4) @ drop n p" by simp
  also have "\<dots> = p" using Xp unfolding XZ .
  finally have "Z1 @ Z2 @ Z3 @ Z4 @ drop n p = p" "X @ drop n p = p" using Xp by simp_all
  with sq l4 show ?thesis unfolding g_def by auto
qed

lemma already_ordered_count:
  assumes an: "answers f cmp"
    and b: "0 < q1 g" "q1 g < length d" "0 < lh g" "lh g < length d" "lh g + q3 g < length d"
  shows "\<exists>a1. already_ordered (counted cmp) d g (a, k) = Some
     (f (d ! (q1 g - 1)) (d ! q1 g) \<le> 0 \<and> f (d ! (lh g - 1)) (d ! lh g) \<le> 0
        \<and> f (d ! (lh g + q3 g - 1)) (d ! (lh g + q3 g)) \<le> 0,
      (a1, k + (if f (d ! (q1 g - 1)) (d ! q1 g) \<le> 0
                then if f (d ! (lh g - 1)) (d ! lh g) \<le> 0 then 3 else 2 else 1)))"
proof -
  have i: "q1 g - 1 < length d" "lh g - 1 < length d" "lh g + q3 g - 1 < length d"
    using b by simp_all
  have p: "idx_pred (q1 g) = Some (q1 g - 1)" "idx_pred (lh g) = Some (lh g - 1)"
    "idx_pred (lh g + q3 g) = Some (lh g + q3 g - 1)"
    using b by (simp_all add: idx_pred_def)
  from cmp_at_answers[OF an i(1) b(2)] obtain a1 where
    c1: "cmp_at cmp d (q1 g - 1) (q1 g) a = Some (f (d ! (q1 g - 1)) (d ! q1 g), a1)" by blast
  from cmp_at_answers[OF an i(2) b(4)] obtain a2 where
    c2: "cmp_at cmp d (lh g - 1) (lh g) a1 = Some (f (d ! (lh g - 1)) (d ! lh g), a2)" by blast
  from cmp_at_answers[OF an i(3) b(5)] obtain a3 where
    c3: "cmp_at cmp d (lh g + q3 g - 1) (lh g + q3 g) a2
      = Some (f (d ! (lh g + q3 g - 1)) (d ! (lh g + q3 g)), a3)" by blast
  show ?thesis
    unfolding already_ordered_def p
    by (simp add: cmp_at_counted c1[simplified] c2[simplified] c3[simplified])
qed

lemma fully_reversed_count:
  assumes an: "answers f cmp"
    and b: "0 < q1 g" "q1 g < length d" "0 < lh g" "lh g < length d" "lh g + q3 g < length d"
      "0 < n" "n \<le> length d"
  shows "\<exists>a1. fully_reversed (counted cmp) d n g (a, k) = Some
     (0 < f (d ! 0) (d ! (lh g - 1)) \<and> 0 < f (d ! q1 g) (d ! (lh g + q3 g - 1))
        \<and> 0 < f (d ! lh g) (d ! (n - 1)),
      (a1, k + (if 0 < f (d ! 0) (d ! (lh g - 1))
                then if 0 < f (d ! q1 g) (d ! (lh g + q3 g - 1)) then 3 else 2 else 1)))"
proof -
  have i: "0 < length d" "lh g - 1 < length d" "lh g + q3 g - 1 < length d" "n - 1 < length d"
    using b by arith+
  have p: "idx_pred (lh g) = Some (lh g - 1)"
    "idx_pred (lh g + q3 g) = Some (lh g + q3 g - 1)" "idx_pred n = Some (n - 1)"
    using b by (simp_all add: idx_pred_def)
  from cmp_at_answers[OF an i(1) i(2)] obtain a1 where
    c1: "cmp_at cmp d 0 (lh g - 1) a = Some (f (d ! 0) (d ! (lh g - 1)), a1)" by blast
  from cmp_at_answers[OF an b(2) i(3)] obtain a2 where
    c2: "cmp_at cmp d (q1 g) (lh g + q3 g - 1) a1
      = Some (f (d ! q1 g) (d ! (lh g + q3 g - 1)), a2)" by blast
  from cmp_at_answers[OF an b(4) i(4)] obtain a3 where
    c3: "cmp_at cmp d (lh g) (n - 1) a2 = Some (f (d ! lh g) (d ! (n - 1)), a3)" by blast
  show ?thesis
    unfolding fully_reversed_def p
    by (simp add: cmp_at_counted c1[simplified] c2[simplified] c3[simplified])
qed


text \<open>
  C7. A run that is already sorted under a consistent weak ordering comes back as it was.
  When it has at least 8 elements, the loop reaches the top-level frame at \<open>ret_addr_4\<close>
  with the buffer unchanged; there the already-ordered check succeeds, and that iteration
  empties the stack leaving the buffer and the auxiliary buffer as they are, after exactly
  the three comparator calls of the check: the merger is not called. The comparator counts
  its invocations.
\<close>

theorem xsort_sorted_input:
  assumes "answers f cmp" "weak_ordering f" "n \<le> length p" "length swap0 = n"
    "sorted_by f (take n p)"
  shows "(\<exists>arg1. xsort (counted cmp) swap0 p n (arg, 0) = Some (p, arg1))
     \<and> (8 \<le> n \<longrightarrow> (\<exists>sw4 cap a4 k4 a5 cap5.
           reaches (counted cmp) (xsort_init swap0 p n (arg, 0))
             (St p sw4 [Fr 0 n (partition_array n) ret_addr_4] cap (a4, k4))
           \<and> already_ordered (counted cmp) p (partition_array n) (a4, k4) = Some (True, (a5, k4 + 3))
           \<and> xsort_step (counted cmp) (St p sw4 [Fr 0 n (partition_array n) ret_addr_4] cap (a4, k4))
               = Some (St p sw4 [] cap5 (a5, k4 + 3))))"
proof (intro conjI impI)
  note an = assms(1) and wo = assms(2) and so = assms(5)
  note anc = answers_counted[OF an]
  from xsort_result_stable_sorted[OF anc wo assms(3,4), of "(arg, 0)"] obtain Z arg1 where
    x: "xsort (counted cmp) swap0 p n (arg, 0) = Some (Z @ drop n p, arg1)" and
    sp: "stable_perm f (take n p) Z" and sz: "sorted_by f Z" by blast
  from sorted_stable_unique[OF wo so sz sp] x
  show "\<exists>arg1. xsort (counted cmp) swap0 p n (arg, 0) = Some (p, arg1)" by simp
next
  note an = assms(1) and wo = assms(2) and so = assms(5)
  note anc = answers_counted[OF an]
  assume n8: "8 \<le> n"
  define g where "g = partition_array n"
  note ps = partition_array_sum[of n, folded g_def]
  note pg = partition_array_ge8[OF n8, folded g_def]
  have lsw: "n \<le> length swap0" using assms(4) by simp
  from sort_quarters_sorted_id[OF anc wo n8 assms(3) lsw so, of "(arg, 0)", folded g_def]
  obtain sw4 a4 k4 where
    sq: "sort_quarters (counted cmp) p swap0 (arg, 0) 0 g = Some (p, sw4, (a4, k4))" by auto
  have big: "\<not> n \<le> 7" using n8 by simp
  have room: "length ([] :: stack_frame_t list) < 128" by simp
  from quarters_sim[OF big sq[unfolded g_def] room, of "\<lparr>lh = 0, q1 = 0, q2 = 0, rh = 0, q3 = 0, q4 = 0\<rparr>"]
  obtain cap where
    re: "reaches (counted cmp) (xsort_init swap0 p n (arg, 0)) (St p sw4 [Fr 0 n g ret_addr_4] cap (a4, k4))"
    unfolding xsort_init_def g_def by blast
  have adj: "f (p ! i) (p ! Suc i) \<le> 0" if "Suc i < n" for i
    using so that assms(3) sorted_by_adjacent[OF wo, of "take n p"] by simp
  have bd: "0 < q1 g" "q1 g < length p" "0 < lh g" "lh g < length p" "lh g + q3 g < length p"
    using pg ps assms(3) by simp_all
  have o: "f (p ! (q1 g - 1)) (p ! q1 g) \<le> 0" "f (p ! (lh g - 1)) (p ! lh g) \<le> 0"
    "f (p ! (lh g + q3 g - 1)) (p ! (lh g + q3 g)) \<le> 0"
    using adj[of "q1 g - 1"] adj[of "lh g - 1"] adj[of "lh g + q3 g - 1"] pg ps by simp_all
  from already_ordered_count[OF an bd, of a4 k4] o obtain a5 where
    ao: "already_ordered (counted cmp) p g (a4, k4) = Some (True, (a5, k4 + 3))" by auto
  then have "merge_decision (counted cmp) (drop 0 p) sw4 n g (a4, k4) = Some (p, sw4, (a5, k4 + 3))"
    by (simp add: merge_decision_def)
  from step_4[OF this, where rest="[]" and cap=cap] obtain cap5 where
    "xsort_step (counted cmp) (St p sw4 [Fr 0 n g ret_addr_4] cap (a4, k4))
       = Some (St p sw4 [] cap5 (a5, k4 + 3))" by auto
  with re ao show "\<exists>sw4 cap a4 k4 a5 cap5.
           reaches (counted cmp) (xsort_init swap0 p n (arg, 0))
             (St p sw4 [Fr 0 n (partition_array n) ret_addr_4] cap (a4, k4))
           \<and> already_ordered (counted cmp) p (partition_array n) (a4, k4) = Some (True, (a5, k4 + 3))
           \<and> xsort_step (counted cmp) (St p sw4 [Fr 0 n (partition_array n) ret_addr_4] cap (a4, k4))
               = Some (St p sw4 [] cap5 (a5, k4 + 3))"
    unfolding g_def by blast
qed

lemma sorted_by_int_upto9: "sorted_by int_cmp (take 9 [1, 2, 3, 4, 5, 6, 7, 8, 9, 0])"
  by (simp add: sorted_by_def int_cmp_def)

theorem xsort_sorted_input_witness:
  "answers int_cmp (pure_cmp int_cmp :: (int, unit) cmp_ctx_fn_t) \<and> weak_ordering int_cmp
   \<and> sorted_by int_cmp (take 9 [1, 2, 3, 4, 5, 6, 7, 8, 9, 0]) \<and> (8 :: nat) \<le> 9
   \<and> (\<exists>arg1. xsort (counted (pure_cmp int_cmp)) [0, 0, 0, 0, 0, 0, 0, 0, 0] [1, 2, 3, 4, 5, 6, 7, 8, 9, 0] 9 ((), 0)
         = Some ([1, 2, 3, 4, 5, 6, 7, 8, 9, 0], arg1))
   \<and> (\<exists>sw4 cap a4 k4 a5 cap5.
         reaches (counted (pure_cmp int_cmp)) (xsort_init [0, 0, 0, 0, 0, 0, 0, 0, 0] [1, 2, 3, 4, 5, 6, 7, 8, 9, 0] 9 ((), 0))
           (St [1, 2, 3, 4, 5, 6, 7, 8, 9, 0] sw4 [Fr 0 9 (partition_array 9) ret_addr_4] cap (a4, k4))
         \<and> already_ordered (counted (pure_cmp int_cmp)) [1, 2, 3, 4, 5, 6, 7, 8, 9, 0] (partition_array 9) (a4, k4)
             = Some (True, (a5, k4 + 3))
         \<and> xsort_step (counted (pure_cmp int_cmp))
             (St [1, 2, 3, 4, 5, 6, 7, 8, 9, 0] sw4 [Fr 0 9 (partition_array 9) ret_addr_4] cap (a4, k4))
             = Some (St [1, 2, 3, 4, 5, 6, 7, 8, 9, 0] sw4 [] cap5 (a5, k4 + 3)))"
proof -
  have a: "answers int_cmp (pure_cmp int_cmp :: (int, unit) cmp_ctx_fn_t)" by (rule answers_pure)
  have l: "9 \<le> length [1, 2, 3, 4, 5, 6, 7, 8, 9, 0 :: int]"
    "length [0, 0, 0, 0, 0, 0, 0, 0, 0 :: int] = 9" by simp_all
  have n: "(8 :: nat) \<le> 9" by simp
  note t = xsort_sorted_input[OF a weak_ordering_int_cmp l sorted_by_int_upto9, of "()"]
  from a weak_ordering_int_cmp sorted_by_int_upto9 n t[THEN conjunct1] t[THEN conjunct2, rule_format, OF n]
  show ?thesis by (intro conjI) assumption+
qed

text \<open>A strictly descending list: every element is after all the later ones.\<close>

definition descending_by :: "('a \<Rightarrow> 'a \<Rightarrow> int) \<Rightarrow> 'a list \<Rightarrow> bool" where
  "descending_by f xs = sorted_wrt (\<lambda>a b. 0 < f a b) xs"

lemma descending_by_blocks:
  assumes "descending_by f X" "off + m \<le> off'"
  shows "block_gt f (take m (drop off X)) (take m' (drop off' X))"
  unfolding block_gt_def
proof (intro ballI)
  fix x y
  assume "x \<in> set (take m (drop off X))" "y \<in> set (take m' (drop off' X))"
  then obtain i j where i: "i < m" "off + i < length X" "x = X ! (off + i)"
    and j: "j < m'" "off' + j < length X" "y = X ! (off' + j)"
    by (auto simp: in_set_conv_nth)
  from i(1) assms(2) have "off + i < off' + j" by simp
  with assms(1) j(2) have "0 < f (X ! (off + i)) (X ! (off' + j))"
    unfolding descending_by_def by (simp add: sorted_wrt_iff_nth_less)
  with i j show "0 < f x y" by simp
qed

lemma block_gt_cong:
  "block_gt f xs ys \<Longrightarrow> set xs' = set xs \<Longrightarrow> set ys' = set ys \<Longrightarrow> block_gt f xs' ys'"
  by (simp add: block_gt_def)

lemma stable_perm_set: "stable_perm f xs ys \<Longrightarrow> set ys = set xs"
  unfolding stable_perm_def by (metis mset_eq_setD)

lemma quarters_nth:
  assumes "length A = q1 g" "length B = q2 g" "length C = q3 g" "length D = q4 g"
    "lh g = q1 g + q2 g" "rh g = q3 g + q4 g" "lh g + rh g = n"
    "A \<noteq> []" "B \<noteq> []" "C \<noteq> []" "D \<noteq> []"
  shows "(A @ B @ C @ D @ T) ! 0 = hd A" "(A @ B @ C @ D @ T) ! (q1 g - 1) = last A"
    "(A @ B @ C @ D @ T) ! q1 g = hd B" "(A @ B @ C @ D @ T) ! (lh g - 1) = last B"
    "(A @ B @ C @ D @ T) ! lh g = hd C" "(A @ B @ C @ D @ T) ! (lh g + q3 g - 1) = last C"
    "(A @ B @ C @ D @ T) ! (lh g + q3 g) = hd D" "(A @ B @ C @ D @ T) ! (n - 1) = last D"
proof -
  note ne = assms(8-11) and len = assms(1-4) and ps = assms(5-7)
  show "(A @ B @ C @ D @ T) ! 0 = hd A" using nth_block_hd[OF ne(1), of "[]"] by simp
  show "(A @ B @ C @ D @ T) ! (q1 g - 1) = last A" using nth_block_last[OF ne(1), of "[]"] by (simp add: len)
  show "(A @ B @ C @ D @ T) ! q1 g = hd B" using nth_block_hd[OF ne(2), of A] by (simp add: len)
  show "(A @ B @ C @ D @ T) ! (lh g - 1) = last B" using nth_block_last[OF ne(2), of A] by (simp add: len ps)
  show "(A @ B @ C @ D @ T) ! lh g = hd C" using nth_block_hd[OF ne(3), of "A @ B"] by (simp add: len ps)
  show "(A @ B @ C @ D @ T) ! (lh g + q3 g - 1) = last C"
    using nth_block_last[OF ne(3), of "A @ B"] by (simp add: len ps add.assoc)
  show "(A @ B @ C @ D @ T) ! (lh g + q3 g) = hd D"
    using nth_block_hd[OF ne(4), of "A @ B @ C"] by (simp add: len ps add.assoc)
  have "n = length (A @ B @ C) + length D" using ps len by simp
  then show "(A @ B @ C @ D @ T) ! (n - 1) = last D"
    using nth_block_last[OF ne(4), of "A @ B @ C" T] by simp
qed

lemma block_gt_hd_last: "block_gt f xs ys \<Longrightarrow> xs \<noteq> [] \<Longrightarrow> ys \<noteq> [] \<Longrightarrow> 0 < f (hd xs) (last ys)"
  by (simp add: block_gt_def)

lemma block_gt_last_hd: "block_gt f xs ys \<Longrightarrow> xs \<noteq> [] \<Longrightarrow> ys \<noteq> [] \<Longrightarrow> 0 < f (last xs) (hd ys)"
  by (simp add: block_gt_def)

text \<open>
  C8 as the spec states it promises zero comparator calls during the merge decision of a
  strictly descending run of length \<open>4k\<close>. On the descending run of 8 integers the loop
  reaches the top-level frame at \<open>ret_addr_4\<close> after 8 iterations and 4 comparator calls,
  and the iteration that takes the rotation path makes 4 more. The descending run of 4
  integers is sorted by the base-case sorter in the first iteration: there is no merge
  decision and no rotation.
\<close>

theorem reversed_decision_counterexample:
  "xsort_iter (counted (pure_cmp int_cmp)) 8 (xsort_init [0, 0, 0, 0, 0, 0, 0, 0] [8, 7, 6, 5, 4, 3, 2, 1] 8 ((), 0))
     = Some (St [7, 8, 5, 6, 3, 4, 1, 2] [0, 0, 0, 0, 0, 0, 0, 0] [Fr 0 8 (partition_array 8) ret_addr_4] 128 ((), 4))
   \<and> xsort_step (counted (pure_cmp int_cmp))
       (St [7, 8, 5, 6, 3, 4, 1, 2] [0, 0, 0, 0, 0, 0, 0, 0] [Fr 0 8 (partition_array 8) ret_addr_4] 128 ((), 4))
     = Some (St [1, 2, 3, 4, 5, 6, 7, 8] [3, 4, 0, 0, 0, 0, 0, 0] [] 128 ((), 8))
   \<and> xsort_step (counted (pure_cmp int_cmp)) (xsort_init [0, 0, 0, 0] [4, 3, 2, 1] 4 ((), 0))
     = Some (St [1, 2, 3, 4] [0, 0, 0, 0] [] 128 ((), 6))"
proof (intro conjI)
  show "xsort_iter (counted (pure_cmp int_cmp)) 8 (xsort_init [0, 0, 0, 0, 0, 0, 0, 0] [8, 7, 6, 5, 4, 3, 2, 1] 8 ((), 0))
     = Some (St [7, 8, 5, 6, 3, 4, 1, 2] [0, 0, 0, 0, 0, 0, 0, 0] [Fr 0 8 (partition_array 8) ret_addr_4] 128 ((), 4))"
    by code_simp
  show "xsort_step (counted (pure_cmp int_cmp))
       (St [7, 8, 5, 6, 3, 4, 1, 2] [0, 0, 0, 0, 0, 0, 0, 0] [Fr 0 8 (partition_array 8) ret_addr_4] 128 ((), 4))
     = Some (St [1, 2, 3, 4, 5, 6, 7, 8] [3, 4, 0, 0, 0, 0, 0, 0] [] 128 ((), 8))"
    by code_simp
  show "xsort_step (counted (pure_cmp int_cmp)) (xsort_init [0, 0, 0, 0] [4, 3, 2, 1] 4 ((), 0))
     = Some (St [1, 2, 3, 4] [0, 0, 0, 0] [] 128 ((), 6))"
    by code_simp
qed

text \<open>
  C8 (amended): for a strictly descending run of at least 8 elements, whether or not its
  length is a multiple of 4, the loop reaches the top-level frame at \<open>ret_addr_4\<close> with the
  four quarters \<open>A\<close>, \<open>B\<close>, \<open>C\<close>, \<open>D\<close> sorted; there the already-ordered check fails at its
  first comparison, the fully-reversed check succeeds after three more, and the three
  rotations leave \<open>D @ C @ B @ A\<close>, which is sorted and holds the elements of the run. The
  iteration makes exactly these 4 comparator calls: the merger is not called.
\<close>

theorem xsort_reversed_input:
  assumes "answers f cmp" "weak_ordering f" "8 \<le> n" "n \<le> length p" "length swap0 = n"
    "descending_by f (take n p)"
  shows "\<exists>A B C D sw4 cap a4 k4 a5 a6 sw5 cap5.
     reaches (counted cmp) (xsort_init swap0 p n (arg, 0))
       (St (A @ B @ C @ D @ drop n p) sw4 [Fr 0 n (partition_array n) ret_addr_4] cap (a4, k4))
     \<and> length A = q1 (partition_array n) \<and> length B = q2 (partition_array n)
     \<and> length C = q3 (partition_array n) \<and> length D = q4 (partition_array n)
     \<and> already_ordered (counted cmp) (A @ B @ C @ D @ drop n p) (partition_array n) (a4, k4)
         = Some (False, (a5, k4 + 1))
     \<and> fully_reversed (counted cmp) (A @ B @ C @ D @ drop n p) n (partition_array n) (a5, k4 + 1)
         = Some (True, (a6, k4 + 4))
     \<and> rotate_quarters (A @ B @ C @ D @ drop n p) sw4 (partition_array n)
         = Some (D @ C @ B @ A @ drop n p, sw5)
     \<and> xsort_step (counted cmp)
         (St (A @ B @ C @ D @ drop n p) sw4 [Fr 0 n (partition_array n) ret_addr_4] cap (a4, k4))
         = Some (St (D @ C @ B @ A @ drop n p) sw5 [] cap5 (a6, k4 + 4))
     \<and> sorted_by f (D @ C @ B @ A) \<and> mset (D @ C @ B @ A) = mset (take n p)"
proof -
  note an = assms(1) and wo = assms(2) and n8 = assms(3) and de = assms(6)
  note anc = answers_counted[OF an]
  define g where "g = partition_array n"
  note ps = partition_array_sum[of n, folded g_def]
  note pg = partition_array_ge8[OF n8, folded g_def]
  define X where "X = take n p"
  define T where "T = drop n p"
  have lX: "length X = n" using assms(4) by (simp add: X_def)
  have Xp: "X @ T = p" by (simp add: X_def T_def)
  have lsw: "n \<le> length swap0" using assms(5) by simp
  from sort_quarters_sorts[OF anc wo n8 lX lsw, of T "(arg, 0)", folded g_def]
  obtain A B C D sw4 a4 k4 where
    sq: "sort_quarters (counted cmp) (X @ T) swap0 (arg, 0) 0 g = Some (A @ B @ C @ D @ T, sw4, (a4, k4))" and
    l4: "length sw4 = length swap0" and
    sp: "stable_perm f (take (q1 g) X) A" "stable_perm f (take (q2 g) (drop (q1 g) X)) B"
      "stable_perm f (take (q3 g) (drop (lh g) X)) C" "stable_perm f (drop (lh g + q3 g) X) D" and
    sz: "sorted_by f A" "sorted_by f B" "sorted_by f C" "sorted_by f D"
    by (metis prod.exhaust)
  have len: "length A = q1 g" "length B = q2 g" "length C = q3 g" "length D = q4 g"
    using stable_perm_length[OF sp(1)] stable_perm_length[OF sp(2)] stable_perm_length[OF sp(3)]
      stable_perm_length[OF sp(4)] lX ps by simp_all
  have ne: "A \<noteq> []" "B \<noteq> []" "C \<noteq> []" "D \<noteq> []" using len pg by auto
  have X4: "drop (lh g + q3 g) X = take (q4 g) (drop (lh g + q3 g) X)" using lX ps by simp
  have dX: "descending_by f X" using de by (simp add: X_def)
  have se: "set A = set (take (q1 g) X)" "set B = set (take (q2 g) (drop (q1 g) X))"
    "set C = set (take (q3 g) (drop (lh g) X))" "set D = set (take (q4 g) (drop (lh g + q3 g) X))"
    using stable_perm_set[OF sp(1)] stable_perm_set[OF sp(2)] stable_perm_set[OF sp(3)]
      stable_perm_set[OF sp(4)] X4 by simp_all
  have b1: "block_gt f A B"
    using descending_by_blocks[OF dX, of 0 "q1 g" "q1 g" "q2 g"] unfolding block_gt_def se by simp
  have "q1 g + q2 g \<le> lh g" using ps by simp
  from descending_by_blocks[OF dX this, of "q3 g"]
  have b2: "block_gt f B C" unfolding block_gt_def se .
  have "lh g + q3 g \<le> lh g + q3 g" by simp
  from descending_by_blocks[OF dX this, of "q4 g"]
  have b3: "block_gt f C D" unfolding block_gt_def se .
  note bg = b1 b2 b3
  have big: "\<not> n \<le> 7" using n8 by simp
  have room: "length ([] :: stack_frame_t list) < 128" by simp
  from quarters_sim[OF big sq[unfolded g_def Xp] room, of "\<lparr>lh = 0, q1 = 0, q2 = 0, rh = 0, q3 = 0, q4 = 0\<rparr>"]
  obtain cap where
    re: "reaches (counted cmp) (xsort_init swap0 p n (arg, 0))
           (St (A @ B @ C @ D @ T) sw4 [Fr 0 n g ret_addr_4] cap (a4, k4))"
    unfolding xsort_init_def g_def by blast
  define d where "d = A @ B @ C @ D @ T"
  note ix = quarters_nth[OF len ps ne, of T, folded d_def]
  have ld: "length d = n + length T" using ps len by (simp add: d_def)
  have bd: "0 < q1 g" "q1 g < length d" "0 < lh g" "lh g < length d" "lh g + q3 g < length d"
    "0 < n" "n \<le> length d"
    using pg ps ld n8 by simp_all
  have o1: "0 < f (last A) (hd B)" using block_gt_last_hd[OF bg(1) ne(1,2)] .
  have o2: "0 < f (hd A) (last B)" "0 < f (hd B) (last C)" "0 < f (hd C) (last D)"
    using block_gt_hd_last[OF bg(1) ne(1,2)] block_gt_hd_last[OF bg(2) ne(2,3)]
      block_gt_hd_last[OF bg(3) ne(3,4)] .
  from already_ordered_count[OF an bd(1-5), of a4 k4, unfolded ix] o1 obtain a5 where
    ao: "already_ordered (counted cmp) d g (a4, k4) = Some (False, (a5, k4 + 1))" by auto
  from fully_reversed_count[OF an bd, of a5 "k4 + 1", unfolded ix] o2 obtain a6 where
    fr: "fully_reversed (counted cmp) d n g (a5, k4 + 1) = Some (True, (a6, k4 + 4))" by auto
  from rotate_quarters_blocks[OF len ps(2), of sw4 T] ps l4 lsw obtain sw5 where
    rq: "rotate_quarters d sw4 g = Some (D @ C @ B @ A @ T, sw5)" by (auto simp: d_def)
  from ao fr rq have "merge_decision (counted cmp) (drop 0 d) sw4 n g (a4, k4)
      = Some (D @ C @ B @ A @ T, sw5, (a6, k4 + 4))"
    by (simp add: merge_decision_def)
  from step_4[OF this, where rest="[]" and cap=cap] obtain cap5 where
    st: "xsort_step (counted cmp) (St d sw4 [Fr 0 n g ret_addr_4] cap (a4, k4))
       = Some (St (D @ C @ B @ A @ T) sw5 [] cap5 (a6, k4 + 4))" by auto
  note rb = reversed_blocks[OF wo sz ne(2,3) bg]
  have "X = take (q1 g) X @ drop (q1 g) X" by simp
  also have "drop (q1 g) X = take (q2 g) (drop (q1 g) X) @ drop (lh g) X"
    by (metis append_take_drop_id drop_drop add.commute ps(1))
  also have "drop (lh g) X = take (q3 g) (drop (lh g) X) @ drop (lh g + q3 g) X"
    by (metis append_take_drop_id drop_drop add.commute)
  finally have "mset X = mset (take (q1 g) X) + mset (take (q2 g) (drop (q1 g) X))
      + mset (take (q3 g) (drop (lh g) X)) + mset (drop (lh g + q3 g) X)"
    by (metis mset_append add.assoc)
  also have "\<dots> = mset A + mset B + mset C + mset D"
    using sp by (simp add: stable_perm_def)
  finally have ms: "mset (D @ C @ B @ A) = mset X" by simp
  from re ao fr rq st rb(2) ms len show ?thesis
    unfolding d_def g_def X_def T_def by blast
qed


lemma descending_by_int_downto: "descending_by int_cmp (take 9 [9, 8, 7, 6, 5, 4, 3, 2, 1, 100])"
  by (simp add: descending_by_def int_cmp_def)

theorem xsort_reversed_input_witness:
  "answers int_cmp (pure_cmp int_cmp :: (int, unit) cmp_ctx_fn_t) \<and> weak_ordering int_cmp
   \<and> (8 :: nat) \<le> 9 \<and> descending_by int_cmp (take 9 [9, 8, 7, 6, 5, 4, 3, 2, 1, 100])
   \<and> (\<exists>A B C D sw4 cap a4 k4 a5 a6 sw5 cap5.
     reaches (counted (pure_cmp int_cmp)) (xsort_init [0, 0, 0, 0, 0, 0, 0, 0, 0] [9, 8, 7, 6, 5, 4, 3, 2, 1, 100] 9 ((), 0))
       (St (A @ B @ C @ D @ drop 9 [9, 8, 7, 6, 5, 4, 3, 2, 1, 100]) sw4 [Fr 0 9 (partition_array 9) ret_addr_4] cap (a4, k4))
     \<and> length A = q1 (partition_array 9) \<and> length B = q2 (partition_array 9)
     \<and> length C = q3 (partition_array 9) \<and> length D = q4 (partition_array 9)
     \<and> already_ordered (counted (pure_cmp int_cmp)) (A @ B @ C @ D @ drop 9 [9, 8, 7, 6, 5, 4, 3, 2, 1, 100])
         (partition_array 9) (a4, k4) = Some (False, (a5, k4 + 1))
     \<and> fully_reversed (counted (pure_cmp int_cmp)) (A @ B @ C @ D @ drop 9 [9, 8, 7, 6, 5, 4, 3, 2, 1, 100]) 9
         (partition_array 9) (a5, k4 + 1) = Some (True, (a6, k4 + 4))
     \<and> rotate_quarters (A @ B @ C @ D @ drop 9 [9, 8, 7, 6, 5, 4, 3, 2, 1, 100]) sw4 (partition_array 9)
         = Some (D @ C @ B @ A @ drop 9 [9, 8, 7, 6, 5, 4, 3, 2, 1, 100], sw5)
     \<and> xsort_step (counted (pure_cmp int_cmp))
         (St (A @ B @ C @ D @ drop 9 [9, 8, 7, 6, 5, 4, 3, 2, 1, 100]) sw4 [Fr 0 9 (partition_array 9) ret_addr_4] cap (a4, k4))
         = Some (St (D @ C @ B @ A @ drop 9 [9, 8, 7, 6, 5, 4, 3, 2, 1, 100]) sw5 [] cap5 (a6, k4 + 4))
     \<and> sorted_by int_cmp (D @ C @ B @ A) \<and> mset (D @ C @ B @ A) = mset (take 9 [9, 8, 7, 6, 5, 4, 3, 2, 1, 100]))"
proof -
  have a: "answers int_cmp (pure_cmp int_cmp :: (int, unit) cmp_ctx_fn_t)" by (rule answers_pure)
  have l: "9 \<le> length [9, 8, 7, 6, 5, 4, 3, 2, 1, 100 :: int]"
    "length [0, 0, 0, 0, 0, 0, 0, 0, 0 :: int] = 9" by simp_all
  have n: "(8 :: nat) \<le> 9" by simp
  from a weak_ordering_int_cmp n descending_by_int_downto
    xsort_reversed_input[OF a weak_ordering_int_cmp n l descending_by_int_downto, of "()"]
  show ?thesis by (intro conjI) assumption+
qed

section \<open>What every comparator leaves in the run (C3)\<close>

lemma merge_head_raw:
  assumes "merge_head cmp src dst i l r arg = Some (hl, dst1, arg1)"
  shows "l < length src" "r < length src" "i < length dst"
    "dst1 = dst[i := (if hl then src ! l else src ! r)]"
  using assms
  by (auto simp: merge_head_def cmp_at_def rd_def wr_def split: Option.bind_splits if_splits prod.splits)

lemma merge_tail_raw:
  assumes "merge_tail cmp src dst i l r arg = Some (tk, dst1, arg1)"
  shows "l < length src" "r < length src" "i < length dst"
    "dst1 = dst[i := (if tk then src ! l else src ! r)]"
  using assms
  by (auto simp: merge_tail_def cmp_at_def rd_def wr_def split: Option.bind_splits if_splits prod.splits)

text \<open>
  The cells of the destination below the forward cursor \<open>a\<close> and from the backward
  cursor \<open>u\<close> up to \<open>N\<close> hold elements of \<open>S\<close>.
\<close>

definition filled :: "'a set \<Rightarrow> 'a list \<Rightarrow> nat \<Rightarrow> nat \<Rightarrow> nat \<Rightarrow> bool" where
  "filled S d a u N = ((\<forall>i<a. d ! i \<in> S) \<and> (\<forall>i. u \<le> i \<and> i < N \<longrightarrow> d ! i \<in> S))"

lemma filled_head:
  "filled S d a u N \<Longrightarrow> a < length d \<Longrightarrow> v \<in> S \<Longrightarrow> filled S (d[a := v]) (Suc a) u N"
  by (auto simp: filled_def nth_list_update less_Suc_eq)

lemma filled_tail:
  "filled S d a (Suc u) N \<Longrightarrow> u < length d \<Longrightarrow> v \<in> S \<Longrightarrow> filled S (d[u := v]) a u N"
proof -
  assume f: "filled S d a (Suc u) N" and u: "u < length d" and v: "v \<in> S"
  have "d[u := v] ! i \<in> S" if "i < a" for i
    using f that v u by (cases "i = u") (simp_all add: filled_def)
  moreover have "d[u := v] ! i \<in> S" if "u \<le> i" "i < N" for i
  proof (cases "i = u")
    case True
    with u v show ?thesis by simp
  next
    case False
    with that have "Suc u \<le> i" by simp
    with f that False show ?thesis by (simp add: filled_def)
  qed
  ultimately show ?thesis by (simp add: filled_def)
qed

lemma nth_take_mem: "i < M \<Longrightarrow> M \<le> length src \<Longrightarrow> src ! i \<in> set (take M src)"
  by (metis length_take min.absorb2 nth_mem nth_take)

lemma parity_loop_fill:
  assumes "parity_loop cmp src dst m fd bd il ir jl jr arg = Some (d1, fd1, bd1, il1, ir1, jl1, jr1, g1)"
    "1 \<le> m" "il + m \<le> M" "ir + m \<le> M" "jl < M" "jr < M" "M \<le> length src" "m \<le> bd + 1"
    "filled (set (take M src)) dst fd (bd + 1) N"
  shows "length d1 = length dst \<and> fd1 + 1 = fd + m \<and> bd1 + m = bd + 1
    \<and> il1 < M \<and> ir1 < M \<and> jl1 < M \<and> jr1 < M \<and> filled (set (take M src)) d1 fd1 (bd1 + 1) N"
  using assms
proof (induction m arbitrary: dst fd bd il ir jl jr arg)
  case 0
  then show ?case by simp
next
  case (Suc m)
  show ?case
  proof (cases "m = 0")
    case True
    with Suc.prems show ?thesis by (simp add: parity_loop_Suc)
  next
    case False
    from parity_loop_SucE[OF Suc.prems(1) False] obtain hl d1' g1' tk d2 g2 where
      h: "merge_head cmp src dst fd il ir arg = Some (hl, d1', g1')" and
      t: "merge_tail cmp src d1' bd jl jr g1' = Some (tk, d2, g2)" and
      r: "parity_loop cmp src d2 m (fd + 1) (bd - 1)
           (if hl then il + 1 else il) (if hl then ir else ir + 1)
           (if tk then jl - 1 else jl) (if tk then jr else jr - 1) g2
         = Some (d1, fd1, bd1, il1, ir1, jl1, jr1, g1)"
      by blast
    note hr = merge_head_raw[OF h] and tr = merge_tail_raw[OF t]
    let ?S = "set (take M src)"
    have bdp: "0 < bd" using Suc.prems(8) False by simp
    have vin: "(if hl then src ! il else src ! ir) \<in> ?S"
      using Suc.prems(3,4,7) by (auto intro: nth_take_mem)
    have win: "(if tk then src ! jl else src ! jr) \<in> ?S"
      using Suc.prems(5,6,7) by (auto intro: nth_take_mem)
    have f1: "filled ?S d1' (Suc fd) (Suc bd) N"
      using filled_head[OF _ hr(3) vin] Suc.prems(9) hr(4) by simp
    have l1: "length d1' = length dst" using hr(4) by simp
    have f2: "filled ?S d2 (fd + 1) (bd - 1 + 1) N"
      using filled_tail[OF f1 tr(3) win] tr(4) bdp by simp
    have l2: "length d2 = length dst" using tr(4) l1 by simp
    have pre: "1 \<le> m" "(if hl then il + 1 else il) + m \<le> M" "(if hl then ir else ir + 1) + m \<le> M"
      "(if tk then jl - 1 else jl) < M" "(if tk then jr else jr - 1) < M" "m \<le> bd - 1 + 1"
      using False Suc.prems(2-8) by auto
    from Suc.IH[OF r pre(1-5) Suc.prems(7) pre(6) f2] l2 bdp show ?thesis by auto
  qed
qed

text \<open>
  Whatever the comparator answers, the parity merger on runs with \<open>L \<le> R \<le> L + 1\<close>
  writes every cell of the destination run, each with an element of the source runs.
\<close>

lemma parity_merge_ctx_fill:
  assumes pm: "parity_merge_ctx cmp src dst L R arg = Some (d, arg1)"
    and L: "1 \<le> L" "L \<le> R" "R \<le> L + 1" and len: "L + R \<le> length src" "L + R \<le> length dst"
  shows "set (take (L + R) d) \<subseteq> set (take (L + R) src)"
proof (rule parity_merge_ctxE[OF pm])
  fix d0 fd0 il0 ir0 g0 d2 fd2 bd2 il2 ir2 jl2 jr2 g2 tk d3 g3 hl
  assume Lpos: "0 < L" and
    hs: "(if L < R then do {
        (hl, dst1, arg1) \<leftarrow> merge_head cmp src dst 0 0 L arg;
        Some (dst1, 1, if hl then 1 else 0, if hl then L else L + 1, arg1)
      }
      else Some (dst, 0, 0, L, arg)) = Some (d0, fd0, il0, ir0, g0)" and
    lp: "parity_loop cmp src d0 L fd0 (L + R - 1) il0 ir0 (L - 1) (L + R - 1) g0
       = Some (d2, fd2, bd2, il2, ir2, jl2, jr2, g2)" and
    ft: "merge_tail cmp src d2 bd2 jl2 jr2 g2 = Some (tk, d3, g3)" and
    fh: "merge_head cmp src d3 fd2 il2 ir2 g3 = Some (hl, d, arg1)"
  let ?M = "L + R"
  let ?S = "set (take ?M src)"
  define h0 :: nat where "h0 = (if L < R then 1 else 0)"
  have hR: "h0 + L = R" using L by (simp add: h0_def)
  have st: "fd0 = h0 \<and> il0 + L \<le> ?M \<and> ir0 + L \<le> ?M \<and> length d0 = length dst
      \<and> filled ?S d0 fd0 (L + R - 1 + 1) ?M"
  proof (cases "L < R")
    case True
    with hs obtain k where
      h: "merge_head cmp src dst 0 0 L arg = Some (k, d0, g0)" and
      e: "fd0 = 1" "il0 = (if k then 1 else 0)" "ir0 = (if k then L else L + 1)"
      by (auto split: Option.bind_splits)
    note hr = merge_head_raw[OF h]
    have "(if k then src ! 0 else src ! L) \<in> ?S" using True L len by (auto intro: nth_take_mem)
    moreover have "filled ?S dst 0 ?M ?M" unfolding filled_def by auto
    ultimately have "filled ?S d0 (Suc 0) ?M ?M" using filled_head[OF _ hr(3)] hr(4) by simp
    with e True L hr(4) show ?thesis by (simp add: h0_def)
  next
    case False
    with hs have "d0 = dst" "fd0 = 0" "il0 = 0" "ir0 = L" by simp_all
    moreover have "filled ?S dst 0 ?M ?M" unfolding filled_def by auto
    ultimately show ?thesis using False L by (simp add: h0_def)
  qed
  have pre: "1 \<le> L" "il0 + L \<le> ?M" "ir0 + L \<le> ?M" "L - 1 < ?M" "L + R - 1 < ?M" "?M \<le> length src"
    "L \<le> L + R - 1 + 1"
    using L st len by simp_all
  from st have fl: "filled ?S d0 fd0 (L + R - 1 + 1) ?M" by blast
  from st have st': "fd0 = h0" "length d0 = length dst" by blast+
  from parity_loop_fill[OF lp pre fl] st'
  have i2: "length d2 = length dst" "fd2 + 1 = h0 + L" "bd2 + L = L + R - 1 + 1"
    "il2 < ?M" "ir2 < ?M" "jl2 < ?M" "jr2 < ?M" "filled ?S d2 fd2 (bd2 + 1) ?M"
    by simp_all
  have bd2: "bd2 = R" and fd2: "Suc fd2 = R" using i2(2,3) hR L by simp_all
  note tr = merge_tail_raw[OF ft] and hr = merge_head_raw[OF fh]
  have "(if tk then src ! jl2 else src ! jr2) \<in> ?S" using i2 len by (auto intro: nth_take_mem)
  from filled_tail[OF _ tr(3) this] i2(8) tr(4) have f3: "filled ?S d3 fd2 bd2 ?M" by simp
  have "(if hl then src ! il2 else src ! ir2) \<in> ?S" using i2 len by (auto intro: nth_take_mem)
  from filled_head[OF f3 hr(3) this] hr(4) have "filled ?S d (Suc fd2) bd2 ?M" by simp
  then have all: "\<forall>i < ?M. d ! i \<in> ?S" unfolding bd2 fd2 filled_def by (meson not_le)
  show "set (take ?M d) \<subseteq> ?S"
  proof
    fix x assume "x \<in> set (take ?M d)"
    then obtain i where "i < length (take ?M d)" "x = take ?M d ! i" by (auto simp: in_set_conv_nth)
    with all show "x \<in> ?S" by simp
  qed
qed


lemma merge_quarters_subset:
  assumes n: "8 \<le> n" "n \<le> length d" "n \<le> length sw"
    and mq: "merge_quarters cmp d sw (partition_array n) arg = Some (d1, sw1, arg1)"
  shows "set (take n d1) \<subseteq> set (take n d)"
proof -
  define g where "g = partition_array n"
  note ps = partition_array_sum[of n, folded g_def]
  note pg = partition_array_ge8[OF n(1), folded g_def]
  note pn = partition_array_near[of n, folded g_def]
  from mq obtain s1 a1 t a2 where
    m1: "parity_merge_ctx cmp d sw (q1 g) (q2 g) arg = Some (s1, a1)" and
    m2: "parity_merge_ctx cmp (drop (lh g) d) (drop (lh g) s1) (q3 g) (q4 g) a1 = Some (t, a2)" and
    m3: "parity_merge_ctx cmp (take (lh g) s1 @ t) d (lh g) (rh g) a2 = Some (d1, arg1)"
    unfolding merge_quarters_def g_def[symmetric] Let_def
    by (auto split: Option.bind_splits)
  have p1: "1 \<le> q1 g" "1 \<le> q3 g" "1 \<le> lh g" using pg by simp_all
  have b1: "q1 g + q2 g \<le> length d" "q1 g + q2 g \<le> length sw" using ps n by simp_all
  have l1: "length s1 = length sw" using parity_merge_ctx_length(1)[OF m1 p1(1) pg(2) b1] .
  have e1: "set (take (lh g) s1) \<subseteq> set (take (lh g) d)"
    using parity_merge_ctx_fill[OF m1 p1(1) pg(2) pn(1) b1] ps by simp
  have b2: "q3 g + q4 g \<le> length (drop (lh g) d)" "q3 g + q4 g \<le> length (drop (lh g) s1)"
    using ps n l1 by simp_all
  have l2: "length t = length sw - lh g"
    using parity_merge_ctx_length(1)[OF m2 p1(2) pg(4) b2] l1 by simp
  have e2: "set (take (rh g) t) \<subseteq> set (take (rh g) (drop (lh g) d))"
    using parity_merge_ctx_fill[OF m2 p1(2) pg(4) pn(2) b2] ps by simp
  define s2 where "s2 = take (lh g) s1 @ t"
  have lt: "length (take (lh g) s1) = lh g" using l1 n ps by simp
  have b3: "lh g + rh g \<le> length s2" "lh g + rh g \<le> length d"
    using lt l2 n ps by (simp_all add: s2_def)
  have t2: "take (lh g + rh g) s2 = take (lh g) s1 @ take (rh g) t"
    using lt by (simp add: s2_def)
  have "set (take (lh g + rh g) d1) \<subseteq> set (take (lh g + rh g) s2)"
    using parity_merge_ctx_fill[OF m3[folded s2_def] p1(3) pg(6) pn(3) b3] .
  also have "\<dots> = set (take (lh g) s1) \<union> set (take (rh g) t)" by (simp add: t2)
  also have "\<dots> \<subseteq> set (take (lh g) d) \<union> set (take (rh g) (drop (lh g) d))"
    using e1 e2 by blast
  also have "\<dots> = set (take (lh g + rh g) d)" by (simp add: take_add)
  finally show ?thesis using ps by simp
qed

lemma rotate_quarters_subset:
  assumes n: "8 \<le> n" "n \<le> length d" "n \<le> length sw"
    and rq: "rotate_quarters d sw (partition_array n) = Some (d1, sw1)"
  shows "mset (take n d1) = mset (take n d)"
proof -
  define g where "g = partition_array n"
  have g: "lh g = q1 g + q2 g" "rh g = q3 g + q4 g" "lh g + rh g = n"
    unfolding g_def by (rule partition_array_sum)+
  define A where "A = take (q1 g) d"
  define B where "B = take (q2 g) (drop (q1 g) d)"
  define C where "C = take (q3 g) (drop (lh g) d)"
  define D where "D = take (q4 g) (drop (lh g + q3 g) d)"
  define T where "T = drop n d"
  have len: "length A = q1 g" "length B = q2 g" "length C = q3 g" "length D = q4 g"
    using g n by (simp_all add: A_def B_def C_def D_def)
  have "A @ B @ C @ D @ T = take (q1 g) d @ take (q2 g) (drop (q1 g) d) @ take (q3 g) (drop (q1 g + q2 g) d)
      @ take (q4 g) (drop (q1 g + q2 g + q3 g) d) @ drop (q1 g + q2 g + q3 g + q4 g) d"
    using g by (simp add: A_def B_def C_def D_def T_def add.assoc)
  also have "\<dots> = d"
    by (metis append_take_drop_id drop_drop add.commute)
  finally have d: "d = A @ B @ C @ D @ T" by simp
  have ln: "length (A @ B @ C @ D) = n" "length (D @ C @ B @ A) = n" using len g by simp_all
  from g n have "q1 g + q2 g + rh g \<le> length sw" by simp
  from rotate_quarters_blocks[OF len g(2) this, of T] rq
  have "d1 = (D @ C @ B @ A) @ T" unfolding g_def[symmetric] d by auto
  then have "take n d1 = D @ C @ B @ A" using ln(2) by simp
  moreover have "take n d = A @ B @ C @ D" using ln(1) d by simp
  ultimately show ?thesis by simp
qed

lemma merge_decision_subset:
  assumes n: "8 \<le> n" "n \<le> length d" "n \<le> length sw"
    and md: "merge_decision cmp d sw n (partition_array n) arg = Some (v, sw1, arg1)"
  shows "set (take n v) \<subseteq> set (take n d)"
proof -
  from md obtain ord a1 where
    r1: "(if ord then Some (d, sw, a1)
       else do {
         (rev, arg2) \<leftarrow> fully_reversed cmp d n (partition_array n) a1;
         if rev then do {
           (d1, sw1) \<leftarrow> rotate_quarters d sw (partition_array n);
           Some (d1, sw1, arg2)
         }
         else merge_quarters cmp d sw (partition_array n) arg2
       }) = Some (v, sw1, arg1)"
    unfolding merge_decision_def
    by (cases "already_ordered cmp d (partition_array n) arg") auto
  show ?thesis
  proof (cases ord)
    case True
    with r1 show ?thesis by simp
  next
    case False
    with r1 obtain rev a2 where
      r2: "(if rev then do {
           (d1, sw1) \<leftarrow> rotate_quarters d sw (partition_array n);
           Some (d1, sw1, a2)
         }
         else merge_quarters cmp d sw (partition_array n) a2) = Some (v, sw1, arg1)"
      by (cases "fully_reversed cmp d n (partition_array n) a1") auto
    show ?thesis
    proof (cases rev)
      case True
      with r2 have "rotate_quarters d sw (partition_array n) = Some (v, sw1)"
        by (auto split: Option.bind_splits)
      from rotate_quarters_subset[OF n this] show ?thesis by (metis set_mset_mset subset_refl)
    next
      case False
      with r2 have "merge_quarters cmp d sw (partition_array n) a2 = Some (v, sw1, arg1)" by simp
      from merge_quarters_subset[OF n this] show ?thesis .
    qed
  qed
qed

text \<open>
  For every comparator: the run \<open>X\<close> of \<open>n\<close> cells at offset \<open>off\<close> becomes a run of
  \<open>n\<close> elements of \<open>X\<close>, and a rearrangement of \<open>X\<close> when \<open>n \<le> 7\<close>; the cells before
  and after it are kept.
\<close>

lemma sort_run_subset:
  "length P = off \<Longrightarrow> length X = n \<Longrightarrow> n \<le> length sw \<Longrightarrow>
    sort_run cmp (P @ X @ S) sw arg off n = Some (p1, sw1, arg1) \<Longrightarrow>
    \<exists>Z. p1 = P @ Z @ S \<and> length Z = n \<and> set Z \<subseteq> set X \<and> (n \<le> 7 \<longrightarrow> mset Z = mset X)"
proof (induction n arbitrary: P X S sw arg off p1 sw1 arg1 rule: less_induct)
  case (less n)
  note lP = less.prems(1) and lX = less.prems(2) and lsw = less.prems(3) and run = less.prems(4)
  show ?case
  proof (cases "n \<le> 7")
    case True
    from run obtain v where
      ov: "oddeven_sort_ctx cmp (drop off (P @ X @ S)) n arg = Some (v, arg1)" and
      p1: "p1 = take off (P @ X @ S) @ v"
      by (auto simp: sort_run_base[OF True] split: Option.bind_splits)
    from ov lP have ov': "oddeven_sort_ctx cmp (X @ S) n arg = Some (v, arg1)" by simp
    have "n \<le> length (X @ S)" using lX by simp
    from oddeven_sort_ctx_run[OF this, of cmp arg] ov' have sr: "same_run n (X @ S) v" by auto
    then have lv: "length v = length (X @ S)" and dv: "drop n v = S"
      and mv: "mset (take n v) = mset X"
      using lX by (simp_all add: same_run_def)
    have "v = take n v @ S" using dv by (metis append_take_drop_id)
    moreover have "length (take n v) = n" using lv lX by simp
    moreover have "set (take n v) \<subseteq> set X" using mv by (metis set_mset_mset subset_refl)
    ultimately show ?thesis using p1 lP mv by auto
  next
    case False
    then have n8: "8 \<le> n" by simp
    define g where "g = partition_array n"
    note ps = partition_array_sum[of n, folded g_def]
    note pg = partition_array_ge8[OF n8, folded g_def]
    define X1 where "X1 = take (q1 g) X"
    define X2 where "X2 = take (q2 g) (drop (q1 g) X)"
    define X3 where "X3 = take (q3 g) (drop (lh g) X)"
    define X4 where "X4 = drop (lh g + q3 g) X"
    have lq: "length X1 = q1 g" "length X2 = q2 g" "length X3 = q3 g" "length X4 = q4 g"
      using ps lX by (simp_all add: X1_def X2_def X3_def X4_def)
    have "X = take (q1 g) X @ drop (q1 g) X" by simp
    also have "drop (q1 g) X = take (q2 g) (drop (q1 g) X) @ drop (lh g) X"
      by (metis append_take_drop_id drop_drop add.commute ps(1))
    also have "drop (lh g) X = take (q3 g) (drop (lh g) X) @ drop (lh g + q3 g) X"
      by (metis append_take_drop_id drop_drop add.commute)
    finally have X: "X = X1 @ X2 @ X3 @ X4" by (simp add: X1_def X2_def X3_def X4_def)
    have small: "q1 g < n" "q2 g < n" "q3 g < n" "q4 g < n" using ps pg by simp_all
    from run[unfolded sort_run_split[OF False], folded g_def]
    obtain p1' s1 a1 p2 s2 a2 p3 s3 a3 p4 s4 a4 v where
      r1: "sort_run cmp (P @ X @ S) sw arg off (q1 g) = Some (p1', s1, a1)" and
      r2: "sort_run cmp p1' s1 a1 (off + q1 g) (q2 g) = Some (p2, s2, a2)" and
      r3: "sort_run cmp p2 s2 a2 (off + lh g) (q3 g) = Some (p3, s3, a3)" and
      r4: "sort_run cmp p3 s3 a3 (off + lh g + q3 g) (q4 g) = Some (p4, s4, a4)" and
      md: "merge_decision cmp (drop off p4) s4 n g a4 = Some (v, sw1, arg1)" and
      res: "p1 = take off p4 @ v"
      by (auto split: Option.bind_splits)
    have lp: "length (P @ X @ S) = off + n + length S" using lP lX by simp
    have k1: "length s1 = length sw" "length p1' = length (P @ X @ S)"
      using sort_run_length[OF r1] lp lsw small by simp_all
    have k2: "length s2 = length sw" "length p2 = length (P @ X @ S)"
      using sort_run_length[OF r2] lp lsw small k1 ps by simp_all
    have k3: "length s3 = length sw" "length p3 = length (P @ X @ S)"
      using sort_run_length[OF r3] lp lsw small k2 ps by simp_all
    have k4: "length s4 = length sw" "length p4 = length (P @ X @ S)"
      using sort_run_length[OF r4] lp lsw small k3 ps by simp_all
    have q: "q1 g \<le> length sw" "q2 g \<le> length sw" "q3 g \<le> length sw" "q4 g \<le> length sw"
      using small lsw by simp_all
    from r1 have "sort_run cmp (P @ X1 @ (X2 @ X3 @ X4 @ S)) sw arg off (q1 g) = Some (p1', s1, a1)"
      by (simp add: X)
    from less.IH[OF small(1) lP lq(1) q(1) this] obtain Z1 where
      z1: "p1' = P @ Z1 @ X2 @ X3 @ X4 @ S" "length Z1 = q1 g" "set Z1 \<subseteq> set X1" by blast
    from r2 have "sort_run cmp ((P @ Z1) @ X2 @ (X3 @ X4 @ S)) s1 a1 (off + q1 g) (q2 g) = Some (p2, s2, a2)"
      by (simp add: z1)
    from less.IH[OF small(2) _ lq(2) _ this] lP z1(2) q k1 obtain Z2 where
      z2: "p2 = (P @ Z1) @ Z2 @ X3 @ X4 @ S" "length Z2 = q2 g" "set Z2 \<subseteq> set X2" by auto
    from r3 have "sort_run cmp ((P @ Z1 @ Z2) @ X3 @ (X4 @ S)) s2 a2 (off + lh g) (q3 g) = Some (p3, s3, a3)"
      by (simp add: z2)
    from less.IH[OF small(3) _ lq(3) _ this] lP z1(2) z2(2) q k2 ps obtain Z3 where
      z3: "p3 = (P @ Z1 @ Z2) @ Z3 @ X4 @ S" "length Z3 = q3 g" "set Z3 \<subseteq> set X3" by auto
    from r4 have "sort_run cmp ((P @ Z1 @ Z2 @ Z3) @ X4 @ S) s3 a3 (off + lh g + q3 g) (q4 g) = Some (p4, s4, a4)"
      by (simp add: z3)
    from less.IH[OF small(4) _ lq(4) _ this] lP z1(2) z2(2) z3(2) q k3 ps obtain Z4 where
      z4: "p4 = (P @ Z1 @ Z2 @ Z3) @ Z4 @ S" "length Z4 = q4 g" "set Z4 \<subseteq> set X4" by auto
    define d where "d = Z1 @ Z2 @ Z3 @ Z4 @ S"
    have dp: "drop off p4 = d" "take off p4 = P" using z4(1) lP by (simp_all add: d_def)
    have ld: "length (Z1 @ Z2 @ Z3 @ Z4) = n" using z1(2) z2(2) z3(2) z4(2) ps by simp
    have nd: "n \<le> length d" using ld by (simp add: d_def)
    have lsw4: "n \<le> length s4" using k4 lsw by simp
    have md': "merge_decision cmp d s4 n (partition_array n) a4 = Some (v, sw1, arg1)"
      using md dp by (simp add: g_def)
    from merge_decision_total[OF n8 nd lsw4, of cmp a4] md'
    have lv: "length v = length d" and dv: "drop n v = drop n d" by auto
    have "drop n d = S" using ld unfolding d_def by (metis append.assoc append_eq_conv_conj)
    with dv have v: "v = take n v @ S" by (metis append_take_drop_id)
    have "take n d = Z1 @ Z2 @ Z3 @ Z4" using ld unfolding d_def by (metis append.assoc append_eq_conv_conj)
    with merge_decision_subset[OF n8 nd lsw4 md'] have "set (take n v) \<subseteq> set (Z1 @ Z2 @ Z3 @ Z4)" by simp
    also have "\<dots> \<subseteq> set X" using z1(3) z2(3) z3(3) z4(3) unfolding X by auto
    finally have sub: "set (take n v) \<subseteq> set X" .
    have "length (take n v) = n" using lv nd by simp
    with v sub res dp False show ?thesis by (intro exI[of _ "take n v"]) auto
  qed
qed

subsection \<open>Comparators that are not orderings\<close>

text \<open>
  A comparator that is a function of its arguments and antisymmetric, but not transitive:
  rock-paper-scissors on the residues modulo 3.
\<close>

definition rps_cmp :: "int \<Rightarrow> int \<Rightarrow> int" where
  "rps_cmp a b = (let d = (a - b) mod 3 in if d = 0 then 0 else if d = 1 then 1 else - 1)"

text \<open>
  C3 as the spec states it promises a permutation of the input for every comparator.
  With the comparator above the two fronts of the parity merger pick the same elements
  twice: eight distinct elements come back as four copies of two of them.
\<close>

theorem xsort_bad_comparator_counterexample:
  "xsort (pure_cmp rps_cmp) [0, 0, 0, 0, 0, 0, 0, 0] [0, 1, 2, 3, 5, 6, 4, 7] 8 ()
     = Some ([4, 7, 4, 7, 4, 7, 4, 7], ())
   \<and> mset [4, 7, 4, 7, 4, 7, 4, 7] \<noteq> mset [0, 1, 2, 3, 5, 6, 4, 7 :: int]"
proof -
  have "xsort (pure_cmp rps_cmp) [0, 0, 0, 0, 0, 0, 0, 0] [0, 1, 2, 3, 5, 6, 4, 7] 8 ()
     = Some ([4, 7, 4, 7, 4, 7, 4, 7], ())"
    by code_simp
  moreover have "count (mset [4, 7, 4, 7, 4, 7, 4, 7 :: int]) 0 \<noteq> count (mset [0, 1, 2, 3, 5, 6, 4, 7]) 0"
    by simp
  then have "mset [4, 7, 4, 7, 4, 7, 4, 7] \<noteq> mset [0, 1, 2, 3, 5, 6, 4, 7 :: int]"
    by metis
  ultimately show ?thesis by simp
qed

text \<open>
  C3 (amended): for every comparator function, including comparators that answer
  differently from call to call or are not transitive, \<open>xsort\<close> terminates and never
  performs an out-of-bounds access on the input buffer, the auxiliary buffer or the frame
  stack; the buffer keeps its length, the cells past the run are untouched, and every
  element of the returned run is an element of the input run. The returned run is a
  permutation of the input run whenever the run has at most 7 elements, or the comparator
  is a consistent weak ordering. (For 8 or more elements and a comparator that is not one,
  the parity merger can write some elements twice and others never, as above.)
\<close>

theorem xsort_in_range:
  assumes "n \<le> length p" "length swap0 = n"
  shows "\<exists>p1 arg1. xsort cmp swap0 p n arg = Some (p1, arg1) \<and> length p1 = length p
           \<and> drop n p1 = drop n p \<and> set (take n p1) \<subseteq> set (take n p)
           \<and> (n \<le> 7 \<longrightarrow> mset (take n p1) = mset (take n p))
           \<and> (\<forall>f. answers f cmp \<and> weak_ordering f \<longrightarrow> mset (take n p1) = mset (take n p))"
proof -
  from assms have "0 + n \<le> length p" "n \<le> length swap0" by simp_all
  from sort_run_total[OF this, of cmp arg] obtain p1 sw1 arg1 where
    r: "sort_run cmp p swap0 arg 0 n = Some (p1, sw1, arg1)" and
    l: "length p1 = length p" "drop n p1 = drop n p"
    by auto
  note x = xsort_sort_run[OF r]
  from r have "sort_run cmp ([] @ take n p @ drop n p) swap0 arg 0 n = Some (p1, sw1, arg1)" by simp
  from sort_run_subset[OF _ _ _ this] assms obtain Z where
    z: "p1 = Z @ drop n p" "length Z = n" "set Z \<subseteq> set (take n p)"
      "n \<le> 7 \<longrightarrow> mset Z = mset (take n p)" by auto
  have t: "take n p1 = Z" using z(1,2) by simp
  have s: "set (take n p1) \<subseteq> set (take n p)" using z(3) t by simp
  have m7: "n \<le> 7 \<longrightarrow> mset (take n p1) = mset (take n p)" using z(4) t by simp
  have "mset (take n p1) = mset (take n p)" if "answers f cmp \<and> weak_ordering f" for f
  proof -
    from that have an: "answers f cmp" and wo: "weak_ordering f" by simp_all
    from xsort_result_stable_sorted[OF an wo assms, of arg] x obtain Z' where
      "p1 = Z' @ drop n p" "stable_perm f (take n p) Z'" by auto
    with z(1) show ?thesis unfolding t by (simp add: stable_perm_def)
  qed
  then have mw: "\<forall>f. answers f cmp \<and> weak_ordering f \<longrightarrow> mset (take n p1) = mset (take n p)"
    by blast
  show ?thesis by (intro exI conjI) (rule x l s m7 mw)+
qed

theorem xsort_in_range_witness:
  "(\<exists>p1 arg1. xsort (pure_cmp rps_cmp) [0, 0, 0, 0, 0, 0, 0, 0] [0, 1, 2, 3, 5, 6, 4, 7, 9] 8 () = Some (p1, arg1)
      \<and> length p1 = length [0, 1, 2, 3, 5, 6, 4, 7, 9 :: int]
      \<and> drop 8 p1 = drop 8 [0, 1, 2, 3, 5, 6, 4, 7, 9]
      \<and> set (take 8 p1) \<subseteq> set (take 8 [0, 1, 2, 3, 5, 6, 4, 7, 9]))
   \<and> (3 :: nat) \<le> 7
   \<and> (\<exists>p1 arg1. xsort (pure_cmp rps_cmp) [0, 0, 0] [2, 1, 0, 9] 3 () = Some (p1, arg1)
        \<and> mset (take 3 p1) = mset (take 3 [2, 1, 0, 9]))
   \<and> answers int_cmp (pure_cmp int_cmp :: (int, unit) cmp_ctx_fn_t) \<and> weak_ordering int_cmp
   \<and> (\<exists>p1 arg1. xsort (pure_cmp int_cmp) [0, 0, 0, 0, 0, 0, 0, 0, 0] [5, 3, 9, 1, 7, 3, 8, 2, 6, 4] 9 () = Some (p1, arg1)
        \<and> mset (take 9 p1) = mset (take 9 [5, 3, 9, 1, 7, 3, 8, 2, 6, 4]))"
proof -
  have l8: "8 \<le> length [0, 1, 2, 3, 5, 6, 4, 7, 9 :: int]" "length [0, 0, 0, 0, 0, 0, 0, 0 :: int] = 8"
    and l3: "3 \<le> length [2, 1, 0, 9 :: int]" "length [0, 0, 0 :: int] = 3"
    and l9: "9 \<le> length [5, 3, 9, 1, 7, 3, 8, 2, 6, 4 :: int]" "length [0, 0, 0, 0, 0, 0, 0, 0, 0 :: int] = 9"
    by simp_all
  have n3: "(3 :: nat) \<le> 7" by simp
  have a: "answers int_cmp (pure_cmp int_cmp :: (int, unit) cmp_ctx_fn_t)" by (rule answers_pure)
  have 1: "\<exists>p1 arg1. xsort (pure_cmp rps_cmp) [0, 0, 0, 0, 0, 0, 0, 0] [0, 1, 2, 3, 5, 6, 4, 7, 9] 8 () = Some (p1, arg1)
      \<and> length p1 = length [0, 1, 2, 3, 5, 6, 4, 7, 9 :: int]
      \<and> drop 8 p1 = drop 8 [0, 1, 2, 3, 5, 6, 4, 7, 9]
      \<and> set (take 8 p1) \<subseteq> set (take 8 [0, 1, 2, 3, 5, 6, 4, 7, 9])"
    using xsort_in_range[OF l8, of "pure_cmp rps_cmp" "()"]
    by (elim exE conjE, intro exI conjI) assumption+
  from xsort_in_range[OF l3, of "pure_cmp rps_cmp" "()"]
  have 2: "\<exists>p1 arg1. xsort (pure_cmp rps_cmp) [0, 0, 0] [2, 1, 0, 9] 3 () = Some (p1, arg1)
        \<and> mset (take 3 p1) = mset (take 3 [2, 1, 0, 9])"
  proof (elim exE conjE)
    fix p1 arg1
    assume x: "xsort (pure_cmp rps_cmp) [0, 0, 0] [2, 1, 0, 9] 3 () = Some (p1, arg1)"
      and m: "(3 :: nat) \<le> 7 \<longrightarrow> mset (take 3 p1) = mset (take 3 [2, 1, 0, 9])"
    from m n3 have "mset (take 3 p1) = mset (take 3 [2, 1, 0, 9])" by (rule mp)
    with x show ?thesis by (intro exI conjI)
  qed
  from xsort_in_range[OF l9, of "pure_cmp int_cmp" "()"]
  have 3: "\<exists>p1 arg1. xsort (pure_cmp int_cmp) [0, 0, 0, 0, 0, 0, 0, 0, 0] [5, 3, 9, 1, 7, 3, 8, 2, 6, 4] 9 () = Some (p1, arg1)
        \<and> mset (take 9 p1) = mset (take 9 [5, 3, 9, 1, 7, 3, 8, 2, 6, 4])"
  proof (elim exE conjE)
    fix p1 arg1
    assume x: "xsort (pure_cmp int_cmp) [0, 0, 0, 0, 0, 0, 0, 0, 0] [5, 3, 9, 1, 7, 3, 8, 2, 6, 4] 9 () = Some (p1, arg1)"
      and m: "\<forall>f. answers f (pure_cmp int_cmp :: (int, unit) cmp_ctx_fn_t) \<and> weak_ordering f
                \<longrightarrow> mset (take 9 p1) = mset (take 9 [5, 3, 9, 1, 7, 3, 8, 2, 6, 4])"
    from m[rule_format, of int_cmp] a weak_ordering_int_cmp
    have "mset (take 9 p1) = mset (take 9 [5, 3, 9, 1, 7, 3, 8, 2, 6, 4])" by simp
    with x show ?thesis by (intro exI conjI)
  qed
  from 1 n3 2 a weak_ordering_int_cmp 3 show ?thesis by (intro conjI) assumption+
qed

end
